theory Spec2Isabelle
  imports Main "HOL-Library.Multiset"
begin

section \<open>Analysis extraction (analysis\_extraction.py)\<close>

subsection \<open>Data\<close>

type_synonym path = string

text \<open>
  The exceptions the modelled code can raise. \<open>TaskError\<close> is the exception class
  \<^verbatim>\<open>_extract_analysis\<close> names in its \<^verbatim>\<open>raise\<close>; the module never imports that name
  (its imports are json, os, defaultdict, DependencyContext, Zinc, NailgunTask,
  get\_buildroot, WorkUnitLabel, MultipleRootedProducts, JarDependency and
  memoized\_property), so evaluating the name raises \<open>NameError\<close> before any
  \<open>TaskError\<close> is built. \<open>KeyError\<close> is a failed dict subscript, \<open>IOError\<close> a failed
  \<^verbatim>\<open>open\<close>, \<open>ValueError\<close> a document \<^verbatim>\<open>json.load\<close> rejects.
\<close>

datatype error =
    TaskError string int
  | NameError string
  | KeyError
  | IOError path
  | ValueError path

text \<open>
  The summary document after \<^verbatim>\<open>json.load\<close>: a JSON object whose two keys may each be
  absent. The \<^verbatim>\<open>products\<close> object is kept as the list of its items in iteration
  order; the \<^verbatim>\<open>dependencies\<close> value is opaque (\<open>'d\<close>).
\<close>

record 'd summary_json =
  products :: "(path \<times> path list) list option"
  dependencies :: "'d option"

datatype 'd file_content = NotJson | Json "'d summary_json"

text \<open>A versioned target of the invalidation check: \<^verbatim>\<open>vt.target\<close>, \<^verbatim>\<open>vt.valid\<close>,
  \<^verbatim>\<open>vt.results_dir\<close>.\<close>

record 't versioned_target =
  target :: 't
  valid :: bool
  results_dir :: path

text \<open>What the task does to the outside world, in order: a \<^verbatim>\<open>runjava\<close> call (with
  its classpath, main class, arguments and the exit code it returned) and an
  \<^verbatim>\<open>open\<close> of a file for reading.\<close>

datatype io_event =
    RunJava "path list" string "string list" int
  | OpenFile path

text \<open>
  Modelled from the spec: \<^verbatim>\<open>MultipleRootedProducts\<close> (pants.goal.products) is not
  under src/. The spec calls an entry of the per-source map an ownership-tagged
  collection of output paths to which a target's outputs are appended, tagged with
  the target's classpath entry: a list of (tag, output path) pairs.
\<close>

type_synonym multiple_rooted_products = "(path \<times> path) list"

text \<open>Modelled from the spec: \<^verbatim>\<open>MultipleRootedProducts.add_abs_paths(root, abs_paths)\<close>
  is not under src/; it appends the paths to the entry, each tagged with the root.\<close>

definition add_abs_paths ::
  "multiple_rooted_products \<Rightarrow> path \<Rightarrow> path list \<Rightarrow> multiple_rooted_products" where
  "add_abs_paths mrp root abs_paths = mrp @ map (Pair root) abs_paths"

text \<open>
  The mutable state: the filesystem, the trace of external effects, and the two
  data products of \<^verbatim>\<open>context.products\<close> (\<open>None\<close> while a product has not been
  created). \<^verbatim>\<open>classes_by_source\<close> is a \<^verbatim>\<open>defaultdict(MultipleRootedProducts)\<close>,
  \<^verbatim>\<open>product_deps_by_src\<close> a \<^verbatim>\<open>dict\<close> keyed by target.
\<close>

record ('t, 'd) state =
  files :: "path \<rightharpoonup> 'd file_content"
  io_trace :: "io_event list"
  classes_by_source :: "(path \<rightharpoonup> multiple_rooted_products) option"
  product_deps_by_src :: "('t \<rightharpoonup> 'd) option"

text \<open>
  What the task reads and the collaborators it calls, none of them under src/:
  which products a downstream task requires, the \<^verbatim>\<open>zinc_analysis\<close> product (a dict
  from target to a triple, as the list of its items), the invalidation framework
  (\<^verbatim>\<open>self.invalidated(targets, ...)\<close>, giving \<^verbatim>\<open>all_vts\<close>), Zinc's
  \<^verbatim>\<open>compile_classpath\<close> and \<^verbatim>\<open>rebase_map_args\<close>, the tool classpath, \<^verbatim>\<open>runjava\<close>
  (an exit code and the filesystem the tool leaves), \<^verbatim>\<open>target.address.spec\<close>,
  \<^verbatim>\<open>get_buildroot()\<close> and \<^verbatim>\<open>os.path.relpath\<close>.
\<close>

record ('t, 'd) env =
  required_data :: "string set"
  zinc_analysis :: "('t \<times> (path \<times> path \<times> path)) list"
  invalidated :: "'t list \<Rightarrow> 't versioned_target list"
  compile_classpath :: "'t \<Rightarrow> path list"
  rebase_map_args :: "string list"
  tool_classpath :: "string \<Rightarrow> path list"
  runjava :: "path list \<Rightarrow> string \<Rightarrow> string list \<Rightarrow> (path \<rightharpoonup> 'd file_content)
                \<Rightarrow> int \<times> (path \<rightharpoonup> 'd file_content)"
  address_spec :: "'t \<Rightarrow> string"
  buildroot :: path
  relpath :: "path \<Rightarrow> path \<Rightarrow> path"

text \<open>A raise keeps the state as it was when the exception left the function.\<close>

type_synonym ('t, 'd) outcome = "(error \<times> ('t, 'd) state) + ('t, 'd) state"

subsection \<open>Helpers of the standard library\<close>

text \<open>\<^verbatim>\<open>sep.join(xs)\<close>.\<close>

fun join :: "string \<Rightarrow> string list \<Rightarrow> string" where
  "join sep [] = []"
| "join sep [x] = x"
| "join sep (x # y # ys) = x @ sep @ join sep (y # ys)"

text \<open>\<^verbatim>\<open>os.path.join(a, b)\<close> for a relative \<open>b\<close>.\<close>

definition path_join :: "path \<Rightarrow> path \<Rightarrow> path" where
  "path_join a b =
     (if a = [] then b else if last a = CHR ''/'' then a @ b else a @ ''/'' @ b)"

subsection \<open>The products registry\<close>

text \<open>
  Modelled from the spec: \<^verbatim>\<open>Products.is_required_data\<close>, \<^verbatim>\<open>safe_create_data\<close> and
  \<^verbatim>\<open>get_data\<close> (pants.goal.products) are not under src/. A product kind is required
  when a downstream consumer asked for it; creating a product initialises an empty
  map for a kind that has none yet; reading a product that was never created gives
  \<open>None\<close> (the fields of the state are read directly).
\<close>

definition is_required_data :: "('t, 'd) env \<Rightarrow> string \<Rightarrow> bool" where
  "is_required_data e typename = (typename \<in> required_data e)"

text \<open>Modelled from the spec: \<^verbatim>\<open>safe_create_data('classes_by_source', make_products)\<close>
  (not under src/) initialises the empty per-source map when the product does not
  exist yet.\<close>

definition safe_create_classes_by_source :: "('t, 'd) state \<Rightarrow> ('t, 'd) state" where
  "safe_create_classes_by_source st =
     (case classes_by_source st of
        None \<Rightarrow> st\<lparr>classes_by_source := Some Map.empty\<rparr>
      | Some m \<Rightarrow> st)"

text \<open>Modelled from the spec: \<^verbatim>\<open>safe_create_data('product_deps_by_src', dict)\<close> (not
  under src/) initialises the empty per-target map when the product does not exist
  yet.\<close>

definition safe_create_product_deps_by_src :: "('t, 'd) state \<Rightarrow> ('t, 'd) state" where
  "safe_create_product_deps_by_src st =
     (case product_deps_by_src st of
        None \<Rightarrow> st\<lparr>product_deps_by_src := Some Map.empty\<rparr>
      | Some m \<Rightarrow> st)"

subsection \<open>The task\<close>

text \<open>\<^verbatim>\<open>_create_products_if_should_run\<close>: the flag and the state it leaves.\<close>

definition create_products_if_should_run ::
  "('t, 'd) env \<Rightarrow> ('t, 'd) state \<Rightarrow> bool \<times> ('t, 'd) state" where
  "create_products_if_should_run e st =
     (let (should_run, st1) =
            (if is_required_data e ''classes_by_source''
             then (True, safe_create_classes_by_source st)
             else (False, st))
      in if is_required_data e ''product_deps_by_src''
         then (True, safe_create_product_deps_by_src st1)
         else (should_run, st1))"

text \<open>\<^verbatim>\<open>_summary_json_file\<close>.\<close>

definition summary_json_file :: "'t versioned_target \<Rightarrow> path" where
  "summary_json_file vt = path_join (results_dir vt) ''summary.json''"

text \<open>\<^verbatim>\<open>_analysis_by_runtime_entry\<close>: the dict comprehension over
  \<^verbatim>\<open>zinc_analysis.values()\<close>; a later value replaces an earlier one with the same
  classpath entry.\<close>

definition analysis_by_runtime_entry :: "('t, 'd) env \<Rightarrow> (path \<rightharpoonup> path)" where
  "analysis_by_runtime_entry e =
     fold (\<lambda>(_, cp_entry, analysis_file) m. m(cp_entry \<mapsto> analysis_file))
          (map snd (zinc_analysis e)) Map.empty"

text \<open>\<^verbatim>\<open>_upstream_analysis\<close>: the generator, as the list of what it yields.\<close>

fun upstream_analysis :: "path list \<Rightarrow> (path \<rightharpoonup> path) \<Rightarrow> (path \<times> path) list" where
  "upstream_analysis [] analysis_by_cp_entry = []"
| "upstream_analysis (entry # target_classpath) analysis_by_cp_entry =
     (case analysis_by_cp_entry entry of
        None \<Rightarrow> upstream_analysis target_classpath analysis_by_cp_entry
      | Some analysis_file \<Rightarrow>
          (entry, analysis_file) # upstream_analysis target_classpath analysis_by_cp_entry)"

text \<open>The argument list \<^verbatim>\<open>_extract_analysis\<close> builds.\<close>

definition extract_args ::
  "('t, 'd) env \<Rightarrow> 't \<Rightarrow> path \<Rightarrow> path \<Rightarrow> string list" where
  "extract_args e tgt analysis_file summary_file =
     (let target_classpath = compile_classpath e tgt;
          analysis_by_cp_entry = analysis_by_runtime_entry e;
          upstream = upstream_analysis target_classpath analysis_by_cp_entry
      in [''-summary-json'', summary_file,
          ''-analysis-cache'', analysis_file,
          ''-classpath'', join '':'' target_classpath,
          ''-analysis-map'', join '','' (map (\<lambda>(k, v). k @ '':'' @ v) upstream)]
         @ rebase_map_args e)"

text \<open>
  \<^verbatim>\<open>_extract_analysis\<close>. The tool runs once; on a non-zero exit code the
  \<^verbatim>\<open>raise TaskError(...)\<close> statement looks the global name \<^verbatim>\<open>TaskError\<close> up, which
  the module does not define.
\<close>

definition extract_analysis ::
  "('t, 'd) env \<Rightarrow> 't \<Rightarrow> path \<Rightarrow> path \<Rightarrow> ('t, 'd) state \<Rightarrow> ('t, 'd) outcome" where
  "extract_analysis e tgt analysis_file summary_file st =
     (let args = extract_args e tgt analysis_file summary_file;
          classpath = tool_classpath e ''zinc-extractor'';
          main = ''org.pantsbuild.zinc.extractor.Main'';
          (result, files') = runjava e classpath main args (files st);
          st' = st\<lparr>files := files',
                   io_trace := io_trace st @ [RunJava classpath main args result]\<rparr>
      in if result \<noteq> 0 then Inl (NameError ''TaskError'', st') else Inr st')"

text \<open>\<^verbatim>\<open>_parse_summary_json\<close>.\<close>

definition parse_summary_json ::
  "path \<Rightarrow> ('t, 'd) state \<Rightarrow> (error \<times> ('t, 'd) state) + ('d summary_json \<times> ('t, 'd) state)" where
  "parse_summary_json summary_file st =
     (let st' = st\<lparr>io_trace := io_trace st @ [OpenFile summary_file]\<rparr>
      in case files st summary_file of
           None \<Rightarrow> Inl (IOError summary_file, st')
         | Some NotJson \<Rightarrow> Inl (ValueError summary_file, st')
         | Some (Json summary) \<Rightarrow> Inr (summary, st'))"

text \<open>The loop of \<^verbatim>\<open>_register_products\<close> over \<^verbatim>\<open>summary_json['products'].items()\<close>:
  \<^verbatim>\<open>classes_by_source[source]\<close> on a defaultdict makes an empty entry for a new key.\<close>

fun register_classes ::
  "('t, 'd) env \<Rightarrow> path \<Rightarrow> (path \<times> path list) list
     \<Rightarrow> (path \<rightharpoonup> multiple_rooted_products) \<Rightarrow> (path \<rightharpoonup> multiple_rooted_products)" where
  "register_classes e target_cp_entry [] cbs = cbs"
| "register_classes e target_cp_entry ((abs_src, classes) # items) cbs =
     (let source = relpath e abs_src (buildroot e);
          entry = (case cbs source of None \<Rightarrow> [] | Some mrp \<Rightarrow> mrp)
      in register_classes e target_cp_entry items
           (cbs(source \<mapsto> add_abs_paths entry target_cp_entry classes)))"

text \<open>\<^verbatim>\<open>_register_products\<close>. The two maps are the objects \<^verbatim>\<open>execute\<close> fetched with
  \<^verbatim>\<open>get_data\<close>, that is, the two product fields of the state.\<close>

definition register_products ::
  "('t, 'd) env \<Rightarrow> 't \<Rightarrow> path \<Rightarrow> path \<Rightarrow> ('t, 'd) state \<Rightarrow> ('t, 'd) outcome" where
  "register_products e tgt target_cp_entry summary_file st =
     (case parse_summary_json summary_file st of
        Inl err \<Rightarrow> Inl err
      | Inr (summary, st0) \<Rightarrow>
          (case (case classes_by_source st0 of
                   None \<Rightarrow> Inr st0
                 | Some cbs \<Rightarrow>
                     (case products summary of
                        None \<Rightarrow> Inl (KeyError, st0)
                      | Some items \<Rightarrow>
                          Inr (st0\<lparr>classes_by_source :=
                                 Some (register_classes e target_cp_entry items cbs)\<rparr>))) of
             Inl err \<Rightarrow> Inl err
           | Inr st1 \<Rightarrow>
               (case product_deps_by_src st1 of
                  None \<Rightarrow> Inr st1
                | Some deps \<Rightarrow>
                    (case dependencies summary of
                       None \<Rightarrow> Inl (KeyError, st1)
                     | Some d \<Rightarrow>
                         Inr (st1\<lparr>product_deps_by_src := Some (deps(tgt \<mapsto> d))\<rparr>)))))"

text \<open>The \<^verbatim>\<open>for vt in invalidation_check.all_vts\<close> loop of \<^verbatim>\<open>execute\<close>.\<close>

fun execute_vts ::
  "('t, 'd) env \<Rightarrow> 't versioned_target list \<Rightarrow> ('t, 'd) state \<Rightarrow> ('t, 'd) outcome" where
  "execute_vts e [] st = Inr st"
| "execute_vts e (vt # vts) st =
     (case map_of (zinc_analysis e) (target vt) of
        None \<Rightarrow> Inl (KeyError, st)
      | Some (cp_entry, _, analysis_file) \<Rightarrow>
          (case (if \<not> valid vt
                 then extract_analysis e (target vt) analysis_file (summary_json_file vt) st
                 else Inr st) of
             Inl err \<Rightarrow> Inl err
           | Inr st1 \<Rightarrow>
               (case register_products e (target vt) cp_entry (summary_json_file vt) st1 of
                  Inl err \<Rightarrow> Inl err
                | Inr st2 \<Rightarrow> execute_vts e vts st2)))"

text \<open>\<^verbatim>\<open>execute\<close>.\<close>

definition all_vts :: "('t, 'd) env \<Rightarrow> 't versioned_target list" where
  "all_vts e = invalidated e (map fst (zinc_analysis e))"

definition execute :: "('t, 'd) env \<Rightarrow> ('t, 'd) state \<Rightarrow> ('t, 'd) outcome" where
  "execute e st =
     (case create_products_if_should_run e st of
        (False, st0) \<Rightarrow> Inr st0
      | (True, st0) \<Rightarrow> execute_vts e (all_vts e) st0)"

subsection \<open>Observations of a run\<close>

text \<open>The state an outcome leaves, whether it returned or raised.\<close>

definition final_state :: "('t, 'd) outcome \<Rightarrow> ('t, 'd) state" where
  "final_state r = (case r of Inl (err, st) \<Rightarrow> st | Inr st \<Rightarrow> st)"

text \<open>The argument lists of the tool runs of a trace, and the files it opened.\<close>

fun tool_runs :: "io_event list \<Rightarrow> string list list" where
  "tool_runs [] = []"
| "tool_runs (RunJava classpath main args result # evs) = args # tool_runs evs"
| "tool_runs (OpenFile p # evs) = tool_runs evs"

fun opened_files :: "io_event list \<Rightarrow> path list" where
  "opened_files [] = []"
| "opened_files (RunJava classpath main args result # evs) = opened_files evs"
| "opened_files (OpenFile p # evs) = p # opened_files evs"

text \<open>The arguments \<^verbatim>\<open>execute\<close> has the tool run with for a versioned target.\<close>

definition vt_args :: "('t, 'd) env \<Rightarrow> 't versioned_target \<Rightarrow> string list" where
  "vt_args e vt =
     (case map_of (zinc_analysis e) (target vt) of
        None \<Rightarrow> []
      | Some (cp_entry, _, analysis_file) \<Rightarrow>
          extract_args e (target vt) analysis_file (summary_json_file vt))"

text \<open>Reading \<^verbatim>\<open>classes_by_source[source]\<close>: the entry, empty when there is none.\<close>

definition entry_of ::
  "(path \<rightharpoonup> multiple_rooted_products) \<Rightarrow> path \<Rightarrow> multiple_rooted_products" where
  "entry_of cbs source = (case cbs source of None \<Rightarrow> [] | Some mrp \<Rightarrow> mrp)"

text \<open>What a summary's items add to the entry of a source for a classpath entry.\<close>

definition contribution ::
  "('t, 'd) env \<Rightarrow> path \<Rightarrow> (path \<times> path list) list \<Rightarrow> path \<Rightarrow> multiple_rooted_products" where
  "contribution e target_cp_entry items source =
     concat (map (\<lambda>(abs_src, classes). map (Pair target_cp_entry) classes)
               (filter (\<lambda>(abs_src, classes). relpath e abs_src (buildroot e) = source) items))"

subsection \<open>A concrete run\<close>

text \<open>
  Two targets: A, whose summary is on disk and valid, and B, which is invalid. B's
  classpath is libX.jar, libA.jar, and only libA.jar has an analysis file. The tool
  writes B's summary to the path after \<^verbatim>\<open>-summary-json\<close> and exits with 0. Paths are
  made relative by dropping the build root and the separator (all sources are under
  the build root here).
\<close>

definition example_env :: "(string, string) env" where
  "example_env =
     \<lparr>required_data = {''classes_by_source'', ''product_deps_by_src''},
      zinc_analysis = [(''A'', (''classes/A'', ''libA.jar'', ''a.analysis'')),
                       (''B'', (''classes/B'', ''libB.jar'', ''b.analysis''))],
      invalidated = map (\<lambda>t. \<lparr>target = t, valid = (t = ''A''), results_dir = ''results/'' @ t\<rparr>),
      compile_classpath = (\<lambda>t. if t = ''B'' then [''libX.jar'', ''libA.jar''] else [''libX.jar'']),
      rebase_map_args = [],
      tool_classpath = (\<lambda>name. [name @ ''.jar'']),
      runjava = (\<lambda>classpath main args fs.
        (0, fs(args ! 1 \<mapsto> Json \<lparr>products = Some [(''/root/B.scala'', [''/out/B.class''])],
                                  dependencies = Some ''B-deps''\<rparr>))),
      address_spec = (\<lambda>t. t),
      buildroot = ''/root'',
      relpath = (\<lambda>p start. drop (length start + 1) p)\<rparr>"

definition example_state :: "(string, string) state" where
  "example_state =
     \<lparr>files = [''results/A/summary.json'' \<mapsto>
                Json \<lparr>products = Some [(''/root/A.scala'', [''/out/A.class''])],
                      dependencies = Some ''A-deps''\<rparr>],
      io_trace = [],
      classes_by_source = None,
      product_deps_by_src = None\<rparr>"

text \<open>The same run with a tool that exits with 1 and writes nothing.\<close>

definition failing_env :: "(string, string) env" where
  "failing_env = example_env\<lparr>runjava := (\<lambda>classpath main args fs. (1, fs))\<rparr>"

text \<open>The state in which that run starts its loop (both maps created, empty), and the
  state it ends in.\<close>

definition example_created :: "(string, string) state" where
  "example_created =
     example_state\<lparr>classes_by_source := Some Map.empty, product_deps_by_src := Some Map.empty\<rparr>"

definition example_final :: "(string, string) state" where
  "example_final =
     \<lparr>files = (files example_state)(''results/B/summary.json'' \<mapsto>
                Json \<lparr>products = Some [(''/root/B.scala'', [''/out/B.class''])],
                      dependencies = Some ''B-deps''\<rparr>),
      io_trace = [OpenFile ''results/A/summary.json'',
                  RunJava [''zinc-extractor.jar''] ''org.pantsbuild.zinc.extractor.Main''
                    [''-summary-json'', ''results/B/summary.json'',
                     ''-analysis-cache'', ''b.analysis'',
                     ''-classpath'', ''libX.jar:libA.jar'',
                     ''-analysis-map'', ''libA.jar:a.analysis''] 0,
                  OpenFile ''results/B/summary.json''],
      classes_by_source = Some [''A.scala'' \<mapsto> [(''classes/A'', ''/out/A.class'')],
                                ''B.scala'' \<mapsto> [(''classes/B'', ''/out/B.class'')]],
      product_deps_by_src = Some [''A'' \<mapsto> ''A-deps'', ''B'' \<mapsto> ''B-deps'']\<rparr>"

text \<open>A state in which another target, with classpath entry classes/Z, has already
  registered an output for A.scala, and the per-target map holds an old entry for A.\<close>

definition shared_state :: "(string, string) state" where
  "shared_state =
     example_state\<lparr>classes_by_source := Some [''A.scala'' \<mapsto> [(''classes/Z'', ''/out/Z.class'')]],
                   product_deps_by_src := Some [''A'' \<mapsto> ''old-deps'']\<rparr>"

definition shared_final :: "(string, string) state" where
  "shared_final =
     example_state\<lparr>io_trace := [OpenFile ''results/A/summary.json''],
                   classes_by_source := Some [''A.scala'' \<mapsto>
                     [(''classes/Z'', ''/out/Z.class''), (''classes/A'', ''/out/A.class'')]],
                   product_deps_by_src := Some [''A'' \<mapsto> ''A-deps'']\<rparr>"

section \<open>Sorting targets (sort\_targets.py)\<close>

text \<open>
  A build graph gives each target the ordered list of its direct dependencies; a
  target the graph does not list has none.
\<close>

type_synonym 't build_graph = "('t \<times> 't list) list"

definition dependencies_of :: "'t build_graph \<Rightarrow> 't \<Rightarrow> 't list" where
  "dependencies_of g t = (case map_of g t of None \<Rightarrow> [] | Some ds \<Rightarrow> ds)"

datatype sort_error = CycleError

text \<open>The first error of a sequence of results, or all their lists in one.\<close>

fun collect :: "(sort_error + 't list) list \<Rightarrow> sort_error + 't list" where
  "collect [] = Inr []"
| "collect (Inl err # rs) = Inl err"
| "collect (Inr xs # rs) = (case collect rs of Inl err \<Rightarrow> Inl err | Inr ys \<Rightarrow> Inr (xs @ ys))"

text \<open>
  Modelled from the spec: \<^verbatim>\<open>sort_targets\<close> (pants.build_graph.build_graph) is not
  under src/. The spec asks for a pure, deterministic function that orders the
  targets reachable from its input so that each target appears only after all
  targets that depend on it (dependents before dependencies), and that fails with
  \<open>CycleError\<close> when the reachable graph has a cycle. \<open>visit\<close> walks the dependencies
  of a target depth first, failing when it meets a target of the path it came by, and
  lists each target after its dependencies; \<open>sort_targets\<close> reverses that list and
  keeps one occurrence of each target.
\<close>

function visit :: "'t build_graph \<Rightarrow> 't list \<Rightarrow> 't \<Rightarrow> sort_error + 't list" where
  "visit g path t =
     (if t \<in> set path then Inl CycleError
      else case collect (map (visit g (t # path)) (dependencies_of g t)) of
             Inl err \<Rightarrow> Inl err
           | Inr ds \<Rightarrow> Inr (ds @ [t]))"
  by pat_completeness auto
termination
proof (relation "measure (\<lambda>(g, path, t). card (fst ` set g - set path))")
  show "wf (measure (\<lambda>(g :: 't build_graph, path, t). card (fst ` set g - set path)))"
    by simp
next
  fix g :: "'t build_graph" and path t d
  assume fresh: "t \<notin> set path" and dep: "d \<in> set (dependencies_of g t)"
  from dep obtain ds where "map_of g t = Some ds"
    by (cases "map_of g t") (auto simp: dependencies_of_def)
  then have "(t, ds) \<in> set g"
    by (rule map_of_SomeD)
  then have "t \<in> fst ` set g"
    by force
  with fresh have "fst ` set g - set (t # path) \<subset> fst ` set g - set path"
    by auto
  then have "card (fst ` set g - set (t # path)) < card (fst ` set g - set path)"
    by (intro psubset_card_mono) auto
  then show "((g, t # path, d), (g, path, t))
      \<in> measure (\<lambda>(g, path, t). card (fst ` set g - set path))"
    by simp
qed

text \<open>Modelled from the spec: \<^verbatim>\<open>sort_targets(targets)\<close> is not under src/. It visits the
  given targets in order and returns the targets met, dependents before dependencies,
  each once, or \<open>CycleError\<close>.\<close>

definition sort_targets :: "'t build_graph \<Rightarrow> 't list \<Rightarrow> sort_error + 't list" where
  "sort_targets g targets =
     (case collect (map (visit g []) targets) of
        Inl err \<Rightarrow> Inl err
      | Inr order \<Rightarrow> Inr (remdups (rev order)))"

text \<open>
  \<^verbatim>\<open>SortTargets.console_output\<close>, as the list of what the generator yields. The
  imported \<^verbatim>\<open>sort_targets\<close> is a parameter, \<^verbatim>\<open>reference\<close> is
  \<^verbatim>\<open>target.address.reference()\<close>, \<open>reverse\<close> the option and \<open>target_roots\<close> the
  list \<^verbatim>\<open>self.context.target_roots\<close>. An exception of the sorter leaves the
  generator before it yields anything.
\<close>

definition console_output ::
  "('t list \<Rightarrow> sort_error + 't list) \<Rightarrow> ('t \<Rightarrow> string) \<Rightarrow> bool \<Rightarrow> 't list \<Rightarrow> 't list
     \<Rightarrow> sort_error + string list" where
  "console_output sorter reference reverse target_roots targets =
     (case sorter targets of
        Inl err \<Rightarrow> Inl err
      | Inr sorted_targets \<Rightarrow>
          Inr (map reference
                 (filter (\<lambda>t. t \<in> set target_roots)
                    (if \<not> reverse then rev sorted_targets else sorted_targets))))"

text \<open>The dependency relation of a graph, and what it means for a graph to have a
  cycle among the targets reachable from a list of targets.\<close>

definition depends :: "'t build_graph \<Rightarrow> ('t \<times> 't) set" where
  "depends g = {(a, b). b \<in> set (dependencies_of g a)}"

definition reachable_cycle :: "'t build_graph \<Rightarrow> 't list \<Rightarrow> bool" where
  "reachable_cycle g targets =
     (\<exists>r t. r \<in> set targets \<and> (r, t) \<in> (depends g)\<^sup>* \<and> (t, t) \<in> (depends g)\<^sup>+)"

text \<open>A list is in dependents-first order for a graph when every direct dependency
  of each of its targets occurs later in the list.\<close>

fun dependents_first :: "'t build_graph \<Rightarrow> 't list \<Rightarrow> bool" where
  "dependents_first g [] = True"
| "dependents_first g (x # xs) = (set (dependencies_of g x) \<subseteq> set xs \<and> dependents_first g xs)"

section \<open>Properties of the analysis extraction\<close>

subsection \<open>The upstream analysis resolver\<close>

text \<open>
  C2. For a classpath (an ordered sequence of entries), the resolver yields exactly the
  (entry, analysis file) pairs of the entries that the classpath-entry-to-analysis map
  knows, in classpath order; an entry the map does not know is skipped, and nothing is
  raised (the resolver is a total function returning a plain list). The pairs reach the
  tool as the \<^verbatim>\<open>-analysis-map\<close> argument, in that order.
\<close>

theorem upstream_analysis_filters_in_order:
  "upstream_analysis target_classpath m =
     map (\<lambda>entry. (entry, the (m entry))) (filter (\<lambda>entry. m entry \<noteq> None) target_classpath)
   \<and> map fst (upstream_analysis target_classpath m) = filter (\<lambda>entry. entry \<in> dom m) target_classpath
   \<and> extract_args e tgt analysis_file summary_file ! 7 =
       join '','' (map (\<lambda>(k, v). k @ '':'' @ v)
         (upstream_analysis (compile_classpath e tgt) (analysis_by_runtime_entry e)))"
proof (intro conjI)
  show "upstream_analysis target_classpath m =
     map (\<lambda>entry. (entry, the (m entry))) (filter (\<lambda>entry. m entry \<noteq> None) target_classpath)"
    by (induction target_classpath) (auto split: option.splits)
  show "map fst (upstream_analysis target_classpath m) =
     filter (\<lambda>entry. entry \<in> dom m) target_classpath"
    by (induction target_classpath) (auto split: option.splits)
  show "extract_args e tgt analysis_file summary_file ! 7 =
       join '','' (map (\<lambda>(k, v). k @ '':'' @ v)
         (upstream_analysis (compile_classpath e tgt) (analysis_by_runtime_entry e)))"
    by (simp add: extract_args_def Let_def)
qed

subsection \<open>Parsing and registering a summary\<close>

lemma parse_summary_json_Inr:
  "parse_summary_json f st = Inr (summary, st0) \<longleftrightarrow>
     files st f = Some (Json summary) \<and> st0 = st\<lparr>io_trace := io_trace st @ [OpenFile f]\<rparr>"
  by (auto simp: parse_summary_json_def Let_def split: option.splits file_content.splits)

lemma parse_summary_json_Inl:
  "parse_summary_json f st = Inl (err, st0) \<Longrightarrow> st0 = st\<lparr>io_trace := io_trace st @ [OpenFile f]\<rparr>"
  by (auto simp: parse_summary_json_def Let_def split: option.splits file_content.splits)

lemma entry_of_upd:
  "entry_of (cbs(k \<mapsto> v)) source = (if source = k then v else entry_of cbs source)"
  by (simp add: entry_of_def)

lemma contribution_Cons:
  "contribution e cp ((abs_src, classes) # items) source =
     (if relpath e abs_src (buildroot e) = source then map (Pair cp) classes else [])
     @ contribution e cp items source"
  by (simp add: contribution_def)

lemma register_classes_entry:
  "entry_of (register_classes e cp items cbs) source = entry_of cbs source @ contribution e cp items source"
proof (induction items arbitrary: cbs)
  case Nil
  then show ?case by (simp add: contribution_def)
next
  case (Cons item items)
  obtain abs_src classes where item: "item = (abs_src, classes)"
    by (cases item)
  show ?case
    unfolding item
    by (simp add: Cons.IH contribution_Cons entry_of_upd add_abs_paths_def Let_def)
      (simp add: entry_of_def)
qed

lemma register_classes_dom:
  "dom (register_classes e cp items cbs) =
     dom cbs \<union> (\<lambda>(abs_src, classes). relpath e abs_src (buildroot e)) ` set items"
proof (induction items arbitrary: cbs)
  case Nil
  then show ?case by simp
next
  case (Cons item items)
  obtain abs_src classes where item: "item = (abs_src, classes)"
    by (cases item)
  let ?k = "relpath e abs_src (buildroot e)"
  let ?v = "add_abs_paths (case cbs ?k of None \<Rightarrow> [] | Some mrp \<Rightarrow> mrp) cp classes"
  have "register_classes e cp (item # items) cbs = register_classes e cp items (cbs(?k \<mapsto> ?v))"
    unfolding item by (simp add: Let_def)
  then have "dom (register_classes e cp (item # items) cbs) =
      dom (cbs(?k \<mapsto> ?v)) \<union> (\<lambda>(abs_src, classes). relpath e abs_src (buildroot e)) ` set items"
    by (simp only: Cons.IH)
  also have "dom (cbs(?k \<mapsto> ?v)) = insert ?k (dom cbs)"
    by (simp only: dom_fun_upd option.distinct if_False)
  finally show ?case
    unfolding item by auto
qed

lemma register_products_Inr:
  assumes "register_products e tgt cp f st = Inr st'"
  shows "\<exists>summary. files st f = Some (Json summary)
     \<and> files st' = files st
     \<and> io_trace st' = io_trace st @ [OpenFile f]
     \<and> (case classes_by_source st of
           None \<Rightarrow> classes_by_source st' = None
         | Some cbs \<Rightarrow> \<exists>items. products summary = Some items
              \<and> classes_by_source st' = Some (register_classes e cp items cbs))
     \<and> (case product_deps_by_src st of
           None \<Rightarrow> product_deps_by_src st' = None
         | Some deps \<Rightarrow> \<exists>d. dependencies summary = Some d
              \<and> product_deps_by_src st' = Some (deps(tgt \<mapsto> d)))"
proof -
  from assms obtain summary st0 where p: "parse_summary_json f st = Inr (summary, st0)"
    by (auto simp: register_products_def split: sum.splits)
  then have f: "files st f = Some (Json summary)"
    and st0: "st0 = st\<lparr>io_trace := io_trace st @ [OpenFile f]\<rparr>"
    by (simp_all add: parse_summary_json_Inr)
  from assms p st0 show ?thesis
    by (intro exI [of _ summary])
       (auto simp: register_products_def f split: option.splits sum.splits)
qed

lemma register_products_cbs_None:
  "(classes_by_source (final_state (register_products e tgt cp f st)) = None)
     = (classes_by_source st = None)"
  by (auto simp: register_products_def parse_summary_json_def final_state_def Let_def
      split: option.splits file_content.splits)

lemma register_products_deps_None:
  "(product_deps_by_src (final_state (register_products e tgt cp f st)) = None)
     = (product_deps_by_src st = None)"
  by (auto simp: register_products_def parse_summary_json_def final_state_def Let_def
      split: option.splits file_content.splits)

text \<open>The concrete runs of the example, evaluated.\<close>

lemma example_created_run: "create_products_if_should_run example_env example_state = (True, example_created)"
  by (simp add: create_products_if_should_run_def is_required_data_def example_env_def
      example_state_def example_created_def safe_create_classes_by_source_def
      safe_create_product_deps_by_src_def)

lemma example_all_vts: "all_vts example_env =
   [\<lparr>target = ''A'', valid = True, results_dir = ''results/A''\<rparr>,
    \<lparr>target = ''B'', valid = False, results_dir = ''results/B''\<rparr>]"
  by (simp add: all_vts_def example_env_def)

lemma example_run: "execute example_env example_state = Inr example_final"
  unfolding execute_def example_created_run example_all_vts
  by (simp add: example_env_def example_state_def example_created_def example_final_def
      extract_analysis_def extract_args_def analysis_by_runtime_entry_def register_products_def
      parse_summary_json_def summary_json_file_def path_join_def add_abs_paths_def Let_def)

lemma shared_run: "register_products example_env ''A'' ''classes/A'' ''results/A/summary.json'' shared_state
   = Inr shared_final"
  by (simp add: example_env_def example_state_def shared_state_def shared_final_def
      register_products_def parse_summary_json_def add_abs_paths_def Let_def)

text \<open>
  C3. When a summary is registered and the per-source map exists, every item (absolute
  source path, output paths) of the summary is stored under the source path made
  relative to the build root: the new entry of every source is its old entry followed
  by the output paths of the items with that source, each tagged with the target's
  classpath entry. So what earlier targets registered for a source stays, as a prefix
  of the entry, and the keys of the map are the old keys and the sources of the items.
\<close>

theorem register_products_classes_additive:
  assumes "register_products e tgt target_cp_entry summary_file st = Inr st'"
    and "classes_by_source st = Some cbs"
  shows "\<exists>summary items cbs'.
           files st summary_file = Some (Json summary) \<and> products summary = Some items
         \<and> classes_by_source st' = Some cbs'
         \<and> dom cbs' = dom cbs \<union> (\<lambda>(abs_src, classes). relpath e abs_src (buildroot e)) ` set items
         \<and> (\<forall>source. entry_of cbs' source
                = entry_of cbs source @ contribution e target_cp_entry items source)"
proof -
  from register_products_Inr [OF assms(1)] assms(2)
  obtain summary items where "files st summary_file = Some (Json summary)"
    "products summary = Some items"
    "classes_by_source st' = Some (register_classes e target_cp_entry items cbs)"
    by auto
  then show ?thesis
    by (auto simp: register_classes_entry register_classes_dom)
qed

text \<open>C3 where another target has already registered an output for A.scala: A's output
  is appended to it.\<close>

theorem register_products_classes_additive_witness:
  "register_products example_env ''A'' ''classes/A'' ''results/A/summary.json'' shared_state
     = Inr shared_final
   \<and> classes_by_source shared_state = Some [''A.scala'' \<mapsto> [(''classes/Z'', ''/out/Z.class'')]]
   \<and> (\<exists>cbs'. classes_by_source shared_final = Some cbs'
         \<and> entry_of cbs' ''A.scala''
             = [(''classes/Z'', ''/out/Z.class''), (''classes/A'', ''/out/A.class'')])"
proof -
  have h1: "register_products example_env ''A'' ''classes/A'' ''results/A/summary.json'' shared_state
     = Inr shared_final"
    by (rule shared_run)
  have h2: "classes_by_source shared_state = Some [''A.scala'' \<mapsto> [(''classes/Z'', ''/out/Z.class'')]]"
    by (simp add: shared_state_def)
  from register_products_classes_additive [OF h1 h2]
  obtain summary items cbs' where
    f: "files shared_state ''results/A/summary.json'' = Some (Json summary)"
    and i: "products summary = Some items"
    and c: "classes_by_source shared_final = Some cbs'"
    and e: "\<forall>source. entry_of cbs' source
              = entry_of [''A.scala'' \<mapsto> [(''classes/Z'', ''/out/Z.class'')]] source
                @ contribution example_env ''classes/A'' items source"
    by blast
  from f i have items: "items = [(''/root/A.scala'', [''/out/A.class''])]"
    by (auto simp: shared_state_def example_state_def)
  from e have "entry_of cbs' ''A.scala''
      = entry_of [''A.scala'' \<mapsto> [(''classes/Z'', ''/out/Z.class'')]] ''A.scala''
        @ contribution example_env ''classes/A'' items ''A.scala''"
    by blast
  also have "\<dots> = [(''classes/Z'', ''/out/Z.class''), (''classes/A'', ''/out/A.class'')]"
    by (simp add: items entry_of_def contribution_def example_env_def)
  finally have "entry_of cbs' ''A.scala''
      = [(''classes/Z'', ''/out/Z.class''), (''classes/A'', ''/out/A.class'')]" .
  with c h1 h2 show ?thesis
    by blast
qed

subsection \<open>The tool run and the loop\<close>

lemma extract_analysis_cases:
  obtains (ok) fs where
      "runjava e (tool_classpath e ''zinc-extractor'') ''org.pantsbuild.zinc.extractor.Main''
         (extract_args e tgt af sf) (files st) = (0, fs)"
      "extract_analysis e tgt af sf st =
         Inr (st\<lparr>files := fs, io_trace := io_trace st @
           [RunJava (tool_classpath e ''zinc-extractor'') ''org.pantsbuild.zinc.extractor.Main''
              (extract_args e tgt af sf) 0]\<rparr>)"
  | (fail) rc fs where "rc \<noteq> 0"
      "runjava e (tool_classpath e ''zinc-extractor'') ''org.pantsbuild.zinc.extractor.Main''
         (extract_args e tgt af sf) (files st) = (rc, fs)"
      "extract_analysis e tgt af sf st =
         Inl (NameError ''TaskError'', st\<lparr>files := fs, io_trace := io_trace st @
           [RunJava (tool_classpath e ''zinc-extractor'') ''org.pantsbuild.zinc.extractor.Main''
              (extract_args e tgt af sf) rc]\<rparr>)"
proof -
  obtain rc fs where r: "runjava e (tool_classpath e ''zinc-extractor'')
      ''org.pantsbuild.zinc.extractor.Main'' (extract_args e tgt af sf) (files st) = (rc, fs)"
    by (cases "runjava e (tool_classpath e ''zinc-extractor'')
      ''org.pantsbuild.zinc.extractor.Main'' (extract_args e tgt af sf) (files st)")
  show thesis
  proof (cases "rc = 0")
    case True
    with r show thesis
      by (intro ok [of fs]) (simp_all add: extract_analysis_def Let_def)
  next
    case False
    with r show thesis
      by (intro fail [of rc fs]) (simp_all add: extract_analysis_def Let_def)
  qed
qed

lemma extract_analysis_maps:
  "classes_by_source (final_state (extract_analysis e tgt af sf st)) = classes_by_source st
   \<and> product_deps_by_src (final_state (extract_analysis e tgt af sf st)) = product_deps_by_src st"
  by (cases e tgt af sf st rule: extract_analysis_cases) (simp_all add: final_state_def)

lemma tool_runs_append: "tool_runs (xs @ ys) = tool_runs xs @ tool_runs ys"
  by (induction xs rule: tool_runs.induct) simp_all

lemma opened_files_append: "opened_files (xs @ ys) = opened_files xs @ opened_files ys"
  by (induction xs rule: opened_files.induct) simp_all

lemma create_products_keeps:
  "create_products_if_should_run e st = (b, st0) \<Longrightarrow> io_trace st0 = io_trace st \<and> files st0 = files st"
  by (auto simp: create_products_if_should_run_def safe_create_classes_by_source_def
      safe_create_product_deps_by_src_def split: if_splits option.splits)

lemma execute_vts_append:
  "execute_vts e (xs @ ys) st =
     (case execute_vts e xs st of Inl err \<Rightarrow> Inl err | Inr s \<Rightarrow> execute_vts e ys s)"
  by (induction xs arbitrary: st) (auto split: option.splits sum.splits)

lemma execute_vts_step:
  assumes "execute_vts e (vt # vts) st = Inr st'"
  shows "\<exists>cp x af st1 st2.
           map_of (zinc_analysis e) (target vt) = Some (cp, x, af)
         \<and> (if valid vt then st1 = st
             else extract_analysis e (target vt) af (summary_json_file vt) st = Inr st1)
         \<and> register_products e (target vt) cp (summary_json_file vt) st1 = Inr st2
         \<and> execute_vts e vts st2 = Inr st'"
proof (cases "map_of (zinc_analysis e) (target vt)")
  case None
  with assms show ?thesis by simp
next
  case (Some triple)
  obtain cp x af where triple: "triple = (cp, x, af)"
    by (cases triple)
  show ?thesis
  proof (cases "valid vt")
    case True
    with assms Some triple show ?thesis
      by (auto split: sum.splits)
  next
    case False
    with assms Some triple show ?thesis
      by (auto split: sum.splits)
  qed
qed

lemma execute_vts_trace:
  "execute_vts e vts st = Inr st' \<Longrightarrow>
   \<exists>new. io_trace st' = io_trace st @ new
      \<and> tool_runs new = map (vt_args e) (filter (\<lambda>vt. \<not> valid vt) vts)
      \<and> opened_files new = map summary_json_file vts"
proof (induction vts arbitrary: st)
  case Nil
  then show ?case by simp
next
  case (Cons vt vts)
  from execute_vts_step [OF Cons.prems] obtain cp x af st1 st2 where
    z: "map_of (zinc_analysis e) (target vt) = Some (cp, x, af)"
    and x: "if valid vt then st1 = st
            else extract_analysis e (target vt) af (summary_json_file vt) st = Inr st1"
    and r: "register_products e (target vt) cp (summary_json_file vt) st1 = Inr st2"
    and rest: "execute_vts e vts st2 = Inr st'"
    by blast
  have args: "vt_args e vt = extract_args e (target vt) af (summary_json_file vt)"
    by (simp add: vt_args_def z)
  have "\<exists>ev. io_trace st1 = io_trace st @ ev \<and> opened_files ev = []
          \<and> tool_runs ev = (if valid vt then [] else [vt_args e vt])"
  proof (cases "valid vt")
    case True
    with x show ?thesis by simp
  next
    case False
    with x have ok: "extract_analysis e (target vt) af (summary_json_file vt) st = Inr st1"
      by simp
    show ?thesis
    proof (cases e "target vt" af "summary_json_file vt" st rule: extract_analysis_cases)
      case (ok fs)
      with \<open>extract_analysis e (target vt) af (summary_json_file vt) st = Inr st1\<close> False args
      show ?thesis by auto
    next
      case (fail rc fs)
      with ok show ?thesis by simp
    qed
  qed
  then obtain ev where ev: "io_trace st1 = io_trace st @ ev" "opened_files ev = []"
    "tool_runs ev = (if valid vt then [] else [vt_args e vt])"
    by blast
  from register_products_Inr [OF r] have t2: "io_trace st2 = io_trace st1 @ [OpenFile (summary_json_file vt)]"
    by blast
  from Cons.IH [OF rest] obtain new where new: "io_trace st' = io_trace st2 @ new"
    "tool_runs new = map (vt_args e) (filter (\<lambda>vt. \<not> valid vt) vts)"
    "opened_files new = map summary_json_file vts"
    by blast
  let ?all = "ev @ OpenFile (summary_json_file vt) # new"
  have "io_trace st' = io_trace st @ ?all"
    by (simp add: new t2 ev)
  moreover have "tool_runs ?all = map (vt_args e) (filter (\<lambda>vt. \<not> valid vt) (vt # vts))"
    by (simp add: tool_runs_append ev new)
  moreover have "opened_files ?all = map summary_json_file (vt # vts)"
    by (simp add: opened_files_append ev new)
  ultimately show ?case by blast
qed

lemma execute_vts_split:
  assumes "execute_vts e (pre @ vt # post) st = Inr st'"
  shows "\<exists>cp x af st1 st2 st3.
           execute_vts e pre st = Inr st1
         \<and> map_of (zinc_analysis e) (target vt) = Some (cp, x, af)
         \<and> (if valid vt then st2 = st1
             else extract_analysis e (target vt) af (summary_json_file vt) st1 = Inr st2)
         \<and> register_products e (target vt) cp (summary_json_file vt) st2 = Inr st3
         \<and> execute_vts e post st3 = Inr st'"
proof -
  from assms obtain st1 where pre: "execute_vts e pre st = Inr st1"
    and rest: "execute_vts e (vt # post) st1 = Inr st'"
    by (auto simp: execute_vts_append split: sum.splits)
  from execute_vts_step [OF rest] pre show ?thesis
    by blast
qed

lemma execute_vts_invariant:
  assumes ext: "\<And>tgt af sf s. P s \<Longrightarrow> P (final_state (extract_analysis e tgt af sf s))"
    and reg: "\<And>tgt cp f s. P s \<Longrightarrow> P (final_state (register_products e tgt cp f s))"
    and init: "P st"
  shows "P (final_state (execute_vts e vts st))"
  using init
proof (induction vts arbitrary: st)
  case Nil
  then show ?case by (simp add: final_state_def)
next
  case (Cons vt vts)
  show ?case
  proof (cases "map_of (zinc_analysis e) (target vt)")
    case None
    with Cons.prems show ?thesis by (simp add: final_state_def)
  next
    case (Some triple)
    obtain cp x af where triple: "triple = (cp, x, af)"
      by (cases triple)
    let ?r1 = "if \<not> valid vt
               then extract_analysis e (target vt) af (summary_json_file vt) st else Inr st"
    have p1: "P (final_state ?r1)"
      using Cons.prems ext by (simp add: final_state_def)
    show ?thesis
    proof (cases ?r1)
      case (Inl a)
      with p1 Some triple show ?thesis
        by (cases a) (simp add: final_state_def)
    next
      case (Inr st1)
      with p1 have p1': "P st1" by (simp add: final_state_def)
      let ?r2 = "register_products e (target vt) cp (summary_json_file vt) st1"
      have p2: "P (final_state ?r2)"
        using p1' by (rule reg)
      show ?thesis
      proof (cases ?r2)
        case (Inl a)
        with p2 Some triple \<open>?r1 = Inr st1\<close> show ?thesis
          by (cases a) (simp add: final_state_def)
      next
        case (Inr st2)
        with p2 have "P st2" by (simp add: final_state_def)
        then have "P (final_state (execute_vts e vts st2))"
          by (rule Cons.IH)
        with Some triple \<open>?r1 = Inr st1\<close> Inr show ?thesis
          by simp
      qed
    qed
  qed
qed

lemma execute_vts_cbs_None:
  "(classes_by_source (final_state (execute_vts e vts st)) = None) = (classes_by_source st = None)"
proof
  assume "classes_by_source st = None"
  then show "classes_by_source (final_state (execute_vts e vts st)) = None"
    by (rule execute_vts_invariant [where P = "\<lambda>s. classes_by_source s = None", rotated 2])
       (simp_all add: extract_analysis_maps register_products_cbs_None)
next
  assume a: "classes_by_source (final_state (execute_vts e vts st)) = None"
  show "classes_by_source st = None"
  proof (rule ccontr)
    assume "classes_by_source st \<noteq> None"
    then have "classes_by_source (final_state (execute_vts e vts st)) \<noteq> None"
      by (rule execute_vts_invariant [where P = "\<lambda>s. classes_by_source s \<noteq> None", rotated 2])
         (simp_all add: extract_analysis_maps register_products_cbs_None)
    with a show False by simp
  qed
qed

lemma execute_vts_deps_None:
  "(product_deps_by_src (final_state (execute_vts e vts st)) = None) = (product_deps_by_src st = None)"
proof
  assume "product_deps_by_src st = None"
  then show "product_deps_by_src (final_state (execute_vts e vts st)) = None"
    by (rule execute_vts_invariant [where P = "\<lambda>s. product_deps_by_src s = None", rotated 2])
       (simp_all add: extract_analysis_maps register_products_deps_None)
next
  assume a: "product_deps_by_src (final_state (execute_vts e vts st)) = None"
  show "product_deps_by_src st = None"
  proof (rule ccontr)
    assume "product_deps_by_src st \<noteq> None"
    then have "product_deps_by_src (final_state (execute_vts e vts st)) \<noteq> None"
      by (rule execute_vts_invariant [where P = "\<lambda>s. product_deps_by_src s \<noteq> None", rotated 2])
         (simp_all add: extract_analysis_maps register_products_deps_None)
    with a show False by simp
  qed
qed

lemma execute_vts_deps_dom:
  "execute_vts e vts st = Inr st' \<Longrightarrow> product_deps_by_src st = Some deps \<Longrightarrow>
   \<exists>deps'. product_deps_by_src st' = Some deps' \<and> dom deps' = dom deps \<union> target ` set vts"
proof (induction vts arbitrary: st deps)
  case Nil
  then show ?case by simp
next
  case (Cons vt vts)
  from execute_vts_step [OF Cons.prems(1)] obtain cp x af st1 st2 where
    x: "if valid vt then st1 = st
        else extract_analysis e (target vt) af (summary_json_file vt) st = Inr st1"
    and r: "register_products e (target vt) cp (summary_json_file vt) st1 = Inr st2"
    and rest: "execute_vts e vts st2 = Inr st'"
    by blast
  have "product_deps_by_src st1 = product_deps_by_src st"
  proof (cases "valid vt")
    case True
    with x show ?thesis by simp
  next
    case False
    with x extract_analysis_maps [of e "target vt" af "summary_json_file vt" st]
    show ?thesis by (simp add: final_state_def)
  qed
  with Cons.prems(2) have "product_deps_by_src st1 = Some deps"
    by simp
  with register_products_Inr [OF r] obtain d where
    d: "product_deps_by_src st2 = Some (deps(target vt \<mapsto> d))"
    by auto
  from Cons.IH [OF rest d] show ?case
    by auto
qed

text \<open>
  C6. When a summary is registered and the per-target map exists, the summary's
  \<^verbatim>\<open>dependencies\<close> value is stored as it is under the target, replacing what the map
  held for that target and leaving the other entries alone. Over the loop, the keys
  of the map after a run that returns are the keys it started with and the targets
  processed: one entry for each.
\<close>

theorem register_products_deps_overwrite:
  "(register_products e tgt target_cp_entry summary_file st = Inr st'
      \<and> product_deps_by_src st = Some deps
    \<longrightarrow> (\<exists>summary d.
           files st summary_file = Some (Json summary) \<and> dependencies summary = Some d
         \<and> product_deps_by_src st' = Some (deps(tgt \<mapsto> d))))
 \<and> (execute_vts e vts st = Inr st'' \<and> product_deps_by_src st = Some deps
    \<longrightarrow> (\<exists>deps'. product_deps_by_src st'' = Some deps'
          \<and> dom deps' = dom deps \<union> target ` set vts))"
proof (intro conjI impI; elim conjE)
  assume "register_products e tgt target_cp_entry summary_file st = Inr st'"
    and "product_deps_by_src st = Some deps"
  then show "\<exists>summary d.
           files st summary_file = Some (Json summary) \<and> dependencies summary = Some d
         \<and> product_deps_by_src st' = Some (deps(tgt \<mapsto> d))"
    using register_products_Inr [of e tgt target_cp_entry summary_file st st'] by auto
next
  assume "execute_vts e vts st = Inr st''" and "product_deps_by_src st = Some deps"
  then show "\<exists>deps'. product_deps_by_src st'' = Some deps'
          \<and> dom deps' = dom deps \<union> target ` set vts"
    by (rule execute_vts_deps_dom)
qed

text \<open>C6 where the map holds an old entry for A: it is replaced by the summary's
  value.\<close>

theorem register_products_deps_overwrite_witness:
  "register_products example_env ''A'' ''classes/A'' ''results/A/summary.json'' shared_state
     = Inr shared_final
   \<and> product_deps_by_src shared_state = Some [''A'' \<mapsto> ''old-deps'']
   \<and> (\<exists>summary. files shared_state ''results/A/summary.json'' = Some (Json summary)
         \<and> dependencies summary = Some ''A-deps'')
   \<and> product_deps_by_src shared_final = Some [''A'' \<mapsto> ''A-deps'']"
proof -
  have h1: "register_products example_env ''A'' ''classes/A'' ''results/A/summary.json'' shared_state
     = Inr shared_final"
    by (rule shared_run)
  have h2: "product_deps_by_src shared_state = Some [''A'' \<mapsto> ''old-deps'']"
    by (simp add: shared_state_def)
  from register_products_deps_overwrite [THEN conjunct1, THEN mp, OF conjI [OF h1 h2]]
  obtain summary d where f: "files shared_state ''results/A/summary.json'' = Some (Json summary)"
    and d: "dependencies summary = Some d"
    and p: "product_deps_by_src shared_final = Some ([''A'' \<mapsto> ''old-deps''](''A'' \<mapsto> d))"
    by blast
  from f d have "d = ''A-deps''"
    by (auto simp: shared_state_def example_state_def)
  with f d p h1 h2 show ?thesis
    by auto
qed

text \<open>
  C5. If neither \<^verbatim>\<open>classes_by_source\<close> nor \<^verbatim>\<open>product_deps_by_src\<close> is required,
  \<^verbatim>\<open>execute\<close> returns with the state it was given: no map is created, the
  filesystem is as it was, and the trace gains no tool run and no file read.
\<close>

theorem execute_nothing_required:
  assumes "\<not> is_required_data e ''classes_by_source''"
    and "\<not> is_required_data e ''product_deps_by_src''"
  shows "execute e st = Inr st"
  using assms by (simp add: execute_def create_products_if_should_run_def)

text \<open>C5 for the example with nothing required.\<close>

theorem execute_nothing_required_witness:
  "\<not> is_required_data (example_env\<lparr>required_data := {}\<rparr>) ''classes_by_source''
   \<and> \<not> is_required_data (example_env\<lparr>required_data := {}\<rparr>) ''product_deps_by_src''
   \<and> execute (example_env\<lparr>required_data := {}\<rparr>) example_state = Inr example_state"
proof -
  have h1: "\<not> is_required_data (example_env\<lparr>required_data := {}\<rparr>) ''classes_by_source''"
    and h2: "\<not> is_required_data (example_env\<lparr>required_data := {}\<rparr>) ''product_deps_by_src''"
    by (simp_all add: is_required_data_def)
  from execute_nothing_required [OF h1 h2] h1 h2 show ?thesis
    by simp
qed

text \<open>
  C4 (the code departs from the claim). When the tool exits with a non-zero code for an
  invalid target, the loop stops there: the targets after it are not processed, and
  the tool has run once for it, with no retry. The exception that leaves
  \<^verbatim>\<open>execute\<close> is \<open>NameError\<close> for the name \<^verbatim>\<open>TaskError\<close>, which carries neither the
  target's address nor the exit code; the \<open>TaskError\<close> with the message and the exit
  code that the \<^verbatim>\<open>raise\<close> statement spells out is never built.
\<close>

theorem execute_vts_tool_failure:
  assumes "map_of (zinc_analysis e) (target vt) = Some (cp_entry, x, analysis_file)"
    and "\<not> valid vt"
    and "runjava e (tool_classpath e ''zinc-extractor'') ''org.pantsbuild.zinc.extractor.Main''
           (extract_args e (target vt) analysis_file (summary_json_file vt)) (files st) = (rc, fs)"
    and "rc \<noteq> 0"
  shows "execute_vts e (vt # vts) st =
           Inl (NameError ''TaskError'',
                st\<lparr>files := fs,
                   io_trace := io_trace st @
                     [RunJava (tool_classpath e ''zinc-extractor'')
                        ''org.pantsbuild.zinc.extractor.Main''
                        (extract_args e (target vt) analysis_file (summary_json_file vt)) rc]\<rparr>)"
  using assms by (simp add: extract_analysis_def Let_def)

text \<open>C4 for the example with the failing tool: B is invalid and comes first, A is
  never read.\<close>

theorem execute_vts_tool_failure_witness:
  "map_of (zinc_analysis failing_env) ''B'' = Some (''classes/B'', ''libB.jar'', ''b.analysis'')
   \<and> runjava failing_env [''zinc-extractor.jar''] ''org.pantsbuild.zinc.extractor.Main''
        [''-summary-json'', ''results/B/summary.json'', ''-analysis-cache'', ''b.analysis'',
         ''-classpath'', ''libX.jar:libA.jar'', ''-analysis-map'', ''libA.jar:a.analysis'']
        (files example_created) = (1, files example_created)
   \<and> execute_vts failing_env
        [\<lparr>target = ''B'', valid = False, results_dir = ''results/B''\<rparr>,
         \<lparr>target = ''A'', valid = True, results_dir = ''results/A''\<rparr>] example_created
      = Inl (NameError ''TaskError'',
          example_created\<lparr>io_trace :=
            [RunJava [''zinc-extractor.jar''] ''org.pantsbuild.zinc.extractor.Main''
               [''-summary-json'', ''results/B/summary.json'', ''-analysis-cache'', ''b.analysis'',
                ''-classpath'', ''libX.jar:libA.jar'', ''-analysis-map'', ''libA.jar:a.analysis'']
               1]\<rparr>)"
proof -
  let ?vt = "\<lparr>target = ''B'', valid = False, results_dir = ''results/B''\<rparr> :: string versioned_target"
  let ?args = "[''-summary-json'', ''results/B/summary.json'', ''-analysis-cache'', ''b.analysis'',
         ''-classpath'', ''libX.jar:libA.jar'', ''-analysis-map'', ''libA.jar:a.analysis'']"
  have args: "extract_args failing_env (target ?vt) ''b.analysis'' (summary_json_file ?vt) = ?args"
    by (simp add: extract_args_def failing_env_def example_env_def analysis_by_runtime_entry_def
        summary_json_file_def path_join_def Let_def)
  have cp: "tool_classpath failing_env ''zinc-extractor'' = [''zinc-extractor.jar'']"
    by (simp add: failing_env_def example_env_def)
  have h1: "map_of (zinc_analysis failing_env) (target ?vt)
      = Some (''classes/B'', ''libB.jar'', ''b.analysis'')"
    by (simp add: failing_env_def example_env_def)
  have h2: "\<not> valid ?vt"
    by simp
  have h3: "runjava failing_env (tool_classpath failing_env ''zinc-extractor'')
      ''org.pantsbuild.zinc.extractor.Main''
      (extract_args failing_env (target ?vt) ''b.analysis'' (summary_json_file ?vt))
      (files example_created) = (1, files example_created)"
    by (simp add: failing_env_def example_env_def)
  have h4: "(1::int) \<noteq> 0"
    by simp
  have st: "example_created\<lparr>files := files example_created,
        io_trace := io_trace example_created @
          [RunJava (tool_classpath failing_env ''zinc-extractor'')
             ''org.pantsbuild.zinc.extractor.Main''
             (extract_args failing_env (target ?vt) ''b.analysis'' (summary_json_file ?vt)) 1]\<rparr>
      = example_created\<lparr>io_trace :=
          [RunJava [''zinc-extractor.jar''] ''org.pantsbuild.zinc.extractor.Main'' ?args 1]\<rparr>"
    unfolding args cp by (simp add: example_created_def example_state_def)
  have run: "execute_vts failing_env
      [?vt, \<lparr>target = ''A'', valid = True, results_dir = ''results/A''\<rparr>] example_created
    = Inl (NameError ''TaskError'', example_created\<lparr>io_trace :=
          [RunJava [''zinc-extractor.jar''] ''org.pantsbuild.zinc.extractor.Main'' ?args 1]\<rparr>)"
    using execute_vts_tool_failure [OF h1 h2 h3 h4,
      of "[\<lparr>target = ''A'', valid = True, results_dir = ''results/A''\<rparr>]"]
    unfolding st .
  have z: "map_of (zinc_analysis failing_env) ''B''
      = Some (''classes/B'', ''libB.jar'', ''b.analysis'')"
    using h1 by simp
  have r: "runjava failing_env [''zinc-extractor.jar''] ''org.pantsbuild.zinc.extractor.Main''
      ?args (files example_created) = (1, files example_created)"
    using h3 unfolding args cp .
  from z r run show ?thesis
    by (intro conjI)
qed

text \<open>
  C1. In a run that has something to produce and returns, the tool runs exactly for
  the invalid targets of \<^verbatim>\<open>all_vts\<close>, in order and with the arguments of each, and
  the summary file of every target of \<^verbatim>\<open>all_vts\<close>, valid or not, is opened, in
  order. For every target of \<^verbatim>\<open>all_vts\<close>: the loop reaches it, extraction runs
  before it is registered exactly when it is invalid, and \<^verbatim>\<open>_register_products\<close>
  (parse, then merge into the maps) runs for it whether it is valid or not.
\<close>

theorem execute_extracts_invalid_registers_all:
  assumes "create_products_if_should_run e st = (True, st0)"
    and "execute e st = Inr st'"
  shows "(\<exists>new. io_trace st' = io_trace st @ new
            \<and> tool_runs new = map (vt_args e) (filter (\<lambda>vt. \<not> valid vt) (all_vts e))
            \<and> opened_files new = map summary_json_file (all_vts e))
       \<and> (\<forall>pre vt post. all_vts e = pre @ vt # post \<longrightarrow>
            (\<exists>cp x af st1 st2 st3.
                execute_vts e pre st0 = Inr st1
              \<and> map_of (zinc_analysis e) (target vt) = Some (cp, x, af)
              \<and> (if valid vt then st2 = st1
                  else extract_analysis e (target vt) af (summary_json_file vt) st1 = Inr st2)
              \<and> register_products e (target vt) cp (summary_json_file vt) st2 = Inr st3
              \<and> execute_vts e post st3 = Inr st'))"
proof -
  from assms have run: "execute_vts e (all_vts e) st0 = Inr st'"
    by (simp add: execute_def)
  from create_products_keeps [OF assms(1)] have "io_trace st0 = io_trace st"
    by simp
  with execute_vts_trace [OF run] have
    "\<exists>new. io_trace st' = io_trace st @ new
        \<and> tool_runs new = map (vt_args e) (filter (\<lambda>vt. \<not> valid vt) (all_vts e))
        \<and> opened_files new = map summary_json_file (all_vts e)"
    by simp
  moreover have "\<forall>pre vt post. all_vts e = pre @ vt # post \<longrightarrow>
            (\<exists>cp x af st1 st2 st3.
                execute_vts e pre st0 = Inr st1
              \<and> map_of (zinc_analysis e) (target vt) = Some (cp, x, af)
              \<and> (if valid vt then st2 = st1
                  else extract_analysis e (target vt) af (summary_json_file vt) st1 = Inr st2)
              \<and> register_products e (target vt) cp (summary_json_file vt) st2 = Inr st3
              \<and> execute_vts e post st3 = Inr st')"
  proof (intro allI impI)
    fix pre vt post
    assume "all_vts e = pre @ vt # post"
    with run have "execute_vts e (pre @ vt # post) st0 = Inr st'"
      by simp
    then show "\<exists>cp x af st1 st2 st3.
                execute_vts e pre st0 = Inr st1
              \<and> map_of (zinc_analysis e) (target vt) = Some (cp, x, af)
              \<and> (if valid vt then st2 = st1
                  else extract_analysis e (target vt) af (summary_json_file vt) st1 = Inr st2)
              \<and> register_products e (target vt) cp (summary_json_file vt) st2 = Inr st3
              \<and> execute_vts e post st3 = Inr st'"
      by (rule execute_vts_split)
  qed
  ultimately show ?thesis by (rule conjI)
qed

text \<open>C1 for the example: one tool run, for B; two summaries read, A's and B's.\<close>

theorem execute_extracts_invalid_registers_all_witness:
  "create_products_if_should_run example_env example_state = (True, example_created)
   \<and> execute example_env example_state = Inr example_final
   \<and> all_vts example_env =
       [\<lparr>target = ''A'', valid = True, results_dir = ''results/A''\<rparr>,
        \<lparr>target = ''B'', valid = False, results_dir = ''results/B''\<rparr>]
   \<and> tool_runs (io_trace example_final) =
       [[''-summary-json'', ''results/B/summary.json'', ''-analysis-cache'', ''b.analysis'',
         ''-classpath'', ''libX.jar:libA.jar'', ''-analysis-map'', ''libA.jar:a.analysis'']]
   \<and> opened_files (io_trace example_final) = [''results/A/summary.json'', ''results/B/summary.json'']"
proof -
  from execute_extracts_invalid_registers_all [OF example_created_run example_run]
  obtain new where n: "io_trace example_final = io_trace example_state @ new"
    and t: "tool_runs new = map (vt_args example_env) (filter (\<lambda>vt. \<not> valid vt) (all_vts example_env))"
    and o: "opened_files new = map summary_json_file (all_vts example_env)"
    by blast
  from n have new: "io_trace example_final = new"
    by (simp add: example_state_def)
  have "tool_runs (io_trace example_final) =
       [[''-summary-json'', ''results/B/summary.json'', ''-analysis-cache'', ''b.analysis'',
         ''-classpath'', ''libX.jar:libA.jar'', ''-analysis-map'', ''libA.jar:a.analysis'']]"
    unfolding new t example_all_vts
    by (simp add: vt_args_def extract_args_def example_env_def analysis_by_runtime_entry_def
        summary_json_file_def path_join_def Let_def)
  moreover have "opened_files (io_trace example_final)
      = [''results/A/summary.json'', ''results/B/summary.json'']"
    unfolding new o example_all_vts
    by (simp add: summary_json_file_def path_join_def)
  ultimately show ?thesis
    using example_created_run example_run example_all_vts by simp
qed

text \<open>
  C10. When only one of the two products is required and the other has not been
  created, a run of \<^verbatim>\<open>execute\<close> (whether it returns or raises) creates the required
  map and leaves the other one absent; and registering a summary leaves an absent
  map absent, since each of the two registration steps is skipped when its map is
  \<open>None\<close>.
\<close>

theorem execute_leaves_unrequested_map_absent:
  "(is_required_data e ''classes_by_source'' \<and> \<not> is_required_data e ''product_deps_by_src''
      \<and> product_deps_by_src st = None
    \<longrightarrow> product_deps_by_src (final_state (execute e st)) = None
      \<and> classes_by_source (final_state (execute e st)) \<noteq> None)
 \<and> (\<not> is_required_data e ''classes_by_source'' \<and> is_required_data e ''product_deps_by_src''
      \<and> classes_by_source st = None
    \<longrightarrow> classes_by_source (final_state (execute e st)) = None
      \<and> product_deps_by_src (final_state (execute e st)) \<noteq> None)
 \<and> (product_deps_by_src st = None
    \<longrightarrow> product_deps_by_src (final_state (register_products e tgt cp f st)) = None)
 \<and> (classes_by_source st = None
    \<longrightarrow> classes_by_source (final_state (register_products e tgt cp f st)) = None)"
proof (intro conjI impI; (elim conjE)?)
  assume req: "is_required_data e ''classes_by_source''" "\<not> is_required_data e ''product_deps_by_src''"
    and none: "product_deps_by_src st = None"
  let ?st0 = "safe_create_classes_by_source st"
  have ex: "execute e st = execute_vts e (all_vts e) ?st0"
    using req by (simp add: execute_def create_products_if_should_run_def)
  have "product_deps_by_src ?st0 = None" "classes_by_source ?st0 \<noteq> None"
    using none by (auto simp: safe_create_classes_by_source_def split: option.splits)
  then show "product_deps_by_src (final_state (execute e st)) = None"
    and "classes_by_source (final_state (execute e st)) \<noteq> None"
    by (simp_all add: ex execute_vts_deps_None execute_vts_cbs_None)
next
  assume req: "\<not> is_required_data e ''classes_by_source''" "is_required_data e ''product_deps_by_src''"
    and none: "classes_by_source st = None"
  let ?st0 = "safe_create_product_deps_by_src st"
  have ex: "execute e st = execute_vts e (all_vts e) ?st0"
    using req by (simp add: execute_def create_products_if_should_run_def)
  have "classes_by_source ?st0 = None" "product_deps_by_src ?st0 \<noteq> None"
    using none by (auto simp: safe_create_product_deps_by_src_def split: option.splits)
  then show "classes_by_source (final_state (execute e st)) = None"
    and "product_deps_by_src (final_state (execute e st)) \<noteq> None"
    by (simp_all add: ex execute_vts_deps_None execute_vts_cbs_None)
next
  assume "product_deps_by_src st = None"
  then show "product_deps_by_src (final_state (register_products e tgt cp f st)) = None"
    by (simp add: register_products_deps_None)
next
  assume "classes_by_source st = None"
  then show "classes_by_source (final_state (register_products e tgt cp f st)) = None"
    by (simp add: register_products_cbs_None)
qed

text \<open>C10 for the example with only \<^verbatim>\<open>classes_by_source\<close> required.\<close>

theorem execute_leaves_unrequested_map_absent_witness:
  "is_required_data (example_env\<lparr>required_data := {''classes_by_source''}\<rparr>) ''classes_by_source''
   \<and> \<not> is_required_data (example_env\<lparr>required_data := {''classes_by_source''}\<rparr>)
         ''product_deps_by_src''
   \<and> product_deps_by_src example_state = None
   \<and> product_deps_by_src
        (final_state (execute (example_env\<lparr>required_data := {''classes_by_source''}\<rparr>)
           example_state)) = None
   \<and> classes_by_source
        (final_state (execute (example_env\<lparr>required_data := {''classes_by_source''}\<rparr>)
           example_state)) \<noteq> None"
proof -
  let ?e = "example_env\<lparr>required_data := {''classes_by_source''}\<rparr>"
  have h1: "is_required_data ?e ''classes_by_source''"
    and h2: "\<not> is_required_data ?e ''product_deps_by_src''"
    by (simp_all add: is_required_data_def)
  have h3: "product_deps_by_src example_state = None"
    by (simp add: example_state_def)
  from execute_leaves_unrequested_map_absent [of ?e example_state, THEN conjunct1, THEN mp,
      OF conjI [OF h1 conjI [OF h2 h3]]] h1 h2 h3
  show ?thesis
    by simp
qed

section \<open>Properties of the sorter\<close>

subsection \<open>The modelled sort meets its contract\<close>

declare visit.simps [simp del]

lemma collect_map_Inr:
  "collect (map f xs) = Inr ys \<Longrightarrow> x \<in> set xs \<Longrightarrow> \<exists>l. f x = Inr l \<and> set l \<subseteq> set ys"
proof (induction xs arbitrary: ys)
  case Nil
  then show ?case by simp
next
  case (Cons a xs)
  from Cons.prems(1) obtain l0 zs where a: "f a = Inr l0" and zs: "collect (map f xs) = Inr zs"
    and ys: "ys = l0 @ zs"
    by (cases "f a"; cases "collect (map f xs)") auto
  show ?case
  proof (cases "x = a")
    case True
    then show ?thesis by (simp add: a ys)
  next
    case False
    with Cons.prems(2) have "x \<in> set xs" by simp
    from Cons.IH [OF zs this] show ?thesis by (auto simp: ys)
  qed
qed

lemma collect_map_Inl:
  "collect (map f xs) = Inl err \<Longrightarrow> \<exists>x \<in> set xs. f x = Inl err"
proof (induction xs)
  case Nil
  then show ?case by simp
next
  case (Cons a xs)
  then show ?case
    by (cases "f a"; cases "collect (map f xs)") auto
qed

lemma collect_map_total:
  "(\<And>x. x \<in> set xs \<Longrightarrow> \<exists>l. f x = Inr l) \<Longrightarrow> \<exists>ys. collect (map f xs) = Inr ys"
proof (induction xs)
  case Nil
  then show ?case by simp
next
  case (Cons a xs)
  then obtain l ys where "f a = Inr l" "collect (map f xs) = Inr ys"
    by (metis list.set_intros(1) list.set_intros(2))
  then show ?case by simp
qed

lemma dependents_first_append:
  "dependents_first g xs \<Longrightarrow> dependents_first g ys \<Longrightarrow> dependents_first g (xs @ ys)"
  by (induction xs) auto

lemma dependents_first_remdups:
  "dependents_first g xs \<Longrightarrow> dependents_first g (remdups xs)"
  by (induction xs) auto

lemma collect_map_dependents_first:
  "collect (map f xs) = Inr ys \<Longrightarrow>
   (\<And>x l. x \<in> set xs \<Longrightarrow> f x = Inr l \<Longrightarrow> dependents_first g (rev l)) \<Longrightarrow>
   dependents_first g (rev ys)"
proof (induction xs arbitrary: ys)
  case Nil
  then show ?case by simp
next
  case (Cons a xs)
  from Cons.prems(1) obtain l zs where a: "f a = Inr l" and zs: "collect (map f xs) = Inr zs"
    and ys: "ys = l @ zs"
    by (cases "f a"; cases "collect (map f xs)") auto
  have "dependents_first g (rev l)"
    using Cons.prems(2) [of a l] a by simp
  moreover have "dependents_first g (rev zs)"
  proof (rule Cons.IH [OF zs])
    fix x m assume "x \<in> set xs" "f x = Inr m"
    then show "dependents_first g (rev m)"
      using Cons.prems(2) [of x m] by simp
  qed
  ultimately show ?case
    by (simp add: ys dependents_first_append)
qed

lemma visit_contains: "visit g path t = Inr l \<Longrightarrow> t \<in> set l"
  by (subst (asm) visit.simps) (auto split: if_splits sum.splits)

lemma visit_dependents_first:
  "visit g path t = Inr l \<Longrightarrow> dependents_first g (rev l)"
proof (induction g path t arbitrary: l rule: visit.induct)
  case (1 g path t)
  from "1.prems" obtain ds where fresh: "t \<notin> set path"
    and ds: "collect (map (visit g (t # path)) (dependencies_of g t)) = Inr ds"
    and l: "l = ds @ [t]"
    by (subst (asm) visit.simps) (auto split: if_splits sum.splits)
  have "dependents_first g (rev ds)"
    using ds "1.IH" [OF fresh] by (rule collect_map_dependents_first)
  moreover have "set (dependencies_of g t) \<subseteq> set ds"
  proof
    fix d assume "d \<in> set (dependencies_of g t)"
    with ds obtain m where "visit g (t # path) d = Inr m" "set m \<subseteq> set ds"
      using collect_map_Inr by fastforce
    then show "d \<in> set ds"
      using visit_contains by fastforce
  qed
  ultimately show ?case
    by (simp add: l)
qed

lemma sort_targets_dependents_first:
  "sort_targets g targets = Inr s \<Longrightarrow> dependents_first g s \<and> distinct s"
proof -
  assume "sort_targets g targets = Inr s"
  then obtain order where o: "collect (map (visit g []) targets) = Inr order"
    and s: "s = remdups (rev order)"
    by (auto simp: sort_targets_def split: sum.splits)
  have "dependents_first g (rev order)"
    using o visit_dependents_first by (rule collect_map_dependents_first)
  then show ?thesis
    by (simp add: s dependents_first_remdups)
qed

lemma dependents_first_split:
  "dependents_first g (a @ x # b) \<Longrightarrow> d \<in> set (dependencies_of g x) \<Longrightarrow> d \<in> set b"
  by (induction a) auto

lemma dependents_first_trans:
  "(x, d) \<in> (depends g)\<^sup>+ \<Longrightarrow> dependents_first g (a @ x # b) \<Longrightarrow> d \<in> set b"
proof (induction rule: trancl_induct)
  case (base y)
  then show ?case
    by (auto simp: depends_def dest: dependents_first_split)
next
  case (step y z)
  then have "y \<in> set b" by simp
  then obtain b1 b2 where b: "b = b1 @ y # b2"
    by (auto simp: in_set_conv_decomp)
  with step.prems have "dependents_first g ((a @ x # b1) @ y # b2)"
    by simp
  moreover from step.hyps have "z \<in> set (dependencies_of g y)"
    by (simp add: depends_def)
  ultimately have "z \<in> set b2"
    by (rule dependents_first_split)
  then show ?case
    by (simp add: b)
qed

lemma visit_no_cycle:
  "visit g path t = Inr l \<Longrightarrow> (t, u) \<in> (depends g)\<^sup>* \<Longrightarrow> (u, u) \<notin> (depends g)\<^sup>+"
proof (induction g path t arbitrary: l u rule: visit.induct)
  case (1 g path t)
  from "1.prems"(1) obtain ds where fresh: "t \<notin> set path"
    and ds: "collect (map (visit g (t # path)) (dependencies_of g t)) = Inr ds"
    by (subst (asm) visit.simps) (auto split: if_splits sum.splits)
  show ?case
  proof
    assume cyc: "(u, u) \<in> (depends g)\<^sup>+"
    have "\<exists>d. (t, d) \<in> depends g \<and> (d, u) \<in> (depends g)\<^sup>*"
    proof (cases "u = t")
      case True
      with cyc show ?thesis
        by (auto dest: tranclD)
    next
      case False
      with "1.prems"(2) show ?thesis
        by (auto elim: converse_rtranclE)
    qed
    then obtain d where d: "d \<in> set (dependencies_of g t)" and du: "(d, u) \<in> (depends g)\<^sup>*"
      by (auto simp: depends_def)
    from ds d obtain m where "visit g (t # path) d = Inr m"
      using collect_map_Inr by fastforce
    from "1.IH" [OF fresh d this du] cyc show False
      by simp
  qed
qed

lemma visit_cycle:
  "visit g path t = Inl err \<Longrightarrow> (\<And>x. x \<in> set path \<Longrightarrow> (x, t) \<in> (depends g)\<^sup>+) \<Longrightarrow>
   \<exists>u. (t, u) \<in> (depends g)\<^sup>* \<and> (u, u) \<in> (depends g)\<^sup>+"
proof (induction g path t arbitrary: err rule: visit.induct)
  case (1 g path t)
  show ?case
  proof (cases "t \<in> set path")
    case True
    then have "(t, t) \<in> (depends g)\<^sup>+"
      by (rule "1.prems"(2))
    then show ?thesis
      by blast
  next
    case False
    with "1.prems"(1) have "\<exists>e. collect (map (visit g (t # path)) (dependencies_of g t)) = Inl e"
      by (subst (asm) visit.simps) (auto split: sum.splits)
    then obtain e d where d: "d \<in> set (dependencies_of g t)" and v: "visit g (t # path) d = Inl e"
      using collect_map_Inl by fastforce
    have td: "(t, d) \<in> depends g"
      using d by (simp add: depends_def)
    have "\<exists>u. (d, u) \<in> (depends g)\<^sup>* \<and> (u, u) \<in> (depends g)\<^sup>+"
    proof (rule "1.IH" [OF False d v])
      fix x assume "x \<in> set (t # path)"
      then show "(x, d) \<in> (depends g)\<^sup>+"
        using td "1.prems"(2) by (auto intro: trancl_into_trancl)
    qed
    then obtain u where "(d, u) \<in> (depends g)\<^sup>*" "(u, u) \<in> (depends g)\<^sup>+"
      by blast
    with td show ?thesis
      by (meson converse_rtrancl_into_rtrancl)
  qed
qed

lemma sort_targets_cycle_iff:
  "sort_targets g targets = Inl CycleError \<longleftrightarrow> reachable_cycle g targets"
proof
  assume "sort_targets g targets = Inl CycleError"
  then have "\<exists>e. collect (map (visit g []) targets) = Inl e"
    by (auto simp: sort_targets_def split: sum.splits)
  then obtain e r where r: "r \<in> set targets" and v: "visit g [] r = Inl e"
    using collect_map_Inl by fastforce
  from visit_cycle [OF v] obtain u where "(r, u) \<in> (depends g)\<^sup>*" "(u, u) \<in> (depends g)\<^sup>+"
    by auto
  with r show "reachable_cycle g targets"
    by (auto simp: reachable_cycle_def)
next
  assume "reachable_cycle g targets"
  then obtain r u where r: "r \<in> set targets" and ru: "(r, u) \<in> (depends g)\<^sup>*"
    and uu: "(u, u) \<in> (depends g)\<^sup>+"
    by (auto simp: reachable_cycle_def)
  have "\<not> (\<exists>order. collect (map (visit g []) targets) = Inr order)"
  proof
    assume "\<exists>order. collect (map (visit g []) targets) = Inr order"
    then obtain order l where "visit g [] r = Inr l"
      using r collect_map_Inr by fastforce
    from visit_no_cycle [OF this ru] uu show False
      by simp
  qed
  then obtain e where "collect (map (visit g []) targets) = Inl e"
    by (cases "collect (map (visit g []) targets)") auto
  then show "sort_targets g targets = Inl CycleError"
    by (cases e) (simp add: sort_targets_def)
qed

lemma collect_map_set:
  "collect (map f xs) = Inr ys \<Longrightarrow> u \<in> set ys \<Longrightarrow> \<exists>x \<in> set xs. \<exists>m. f x = Inr m \<and> u \<in> set m"
proof (induction xs arbitrary: ys)
  case Nil
  then show ?case by simp
next
  case (Cons a xs)
  from Cons.prems(1) obtain l0 zs where a: "f a = Inr l0" and zs: "collect (map f xs) = Inr zs"
    and ys: "ys = l0 @ zs"
    by (cases "f a"; cases "collect (map f xs)") auto
  from Cons.prems(2) ys consider "u \<in> set l0" | "u \<in> set zs"
    by auto
  then show ?case
  proof cases
    case 1
    with a show ?thesis by auto
  next
    case 2
    from Cons.IH [OF zs 2] show ?thesis by auto
  qed
qed

lemma dependents_first_closed:
  "(x, u) \<in> (depends g)\<^sup>* \<Longrightarrow> dependents_first g xs \<Longrightarrow> x \<in> set xs \<Longrightarrow> u \<in> set xs"
proof (induction rule: rtrancl_induct)
  case base
  then show ?case by simp
next
  case (step y z)
  then have "y \<in> set xs" by simp
  then obtain a b where xs: "xs = a @ y # b"
    by (auto simp: in_set_conv_decomp)
  from step.hyps(2) have "z \<in> set (dependencies_of g y)"
    by (simp add: depends_def)
  with step.prems(1) have "z \<in> set b"
    unfolding xs by (rule dependents_first_split)
  then show ?case by (simp add: xs)
qed

lemma visit_reaches:
  "visit g path t = Inr l \<Longrightarrow> u \<in> set l \<Longrightarrow> (t, u) \<in> (depends g)\<^sup>*"
proof (induction g path t arbitrary: l u rule: visit.induct)
  case (1 g path t)
  from "1.prems"(1) obtain ds where fresh: "t \<notin> set path"
    and ds: "collect (map (visit g (t # path)) (dependencies_of g t)) = Inr ds"
    and l: "l = ds @ [t]"
    by (subst (asm) visit.simps) (auto split: if_splits sum.splits)
  show ?case
  proof (cases "u = t")
    case True
    then show ?thesis by simp
  next
    case False
    with "1.prems"(2) l have "u \<in> set ds" by simp
    from collect_map_set [OF ds this] obtain d m where d: "d \<in> set (dependencies_of g t)"
      and m: "visit g (t # path) d = Inr m" and u: "u \<in> set m"
      by blast
    from "1.IH" [OF fresh d m u] have "(d, u) \<in> (depends g)\<^sup>*" .
    moreover from d have "(t, d) \<in> depends g"
      by (simp add: depends_def)
    ultimately show ?thesis
      by (rule converse_rtrancl_into_rtrancl [rotated])
  qed
qed

lemma visit_set:
  assumes "visit g path t = Inr l"
  shows "set l = {u. (t, u) \<in> (depends g)\<^sup>*}"
proof (intro set_eqI iffI)
  fix u assume "u \<in> set l"
  with assms show "u \<in> {u. (t, u) \<in> (depends g)\<^sup>*}"
    by (simp add: visit_reaches)
next
  fix u assume "u \<in> {u. (t, u) \<in> (depends g)\<^sup>*}"
  then have r: "(t, u) \<in> (depends g)\<^sup>*" by simp
  from assms have "dependents_first g (rev l)" "t \<in> set (rev l)"
    by (simp_all add: visit_dependents_first visit_contains)
  with r have "u \<in> set (rev l)"
    by (rule dependents_first_closed)
  then show "u \<in> set l" by simp
qed

lemma sort_targets_set:
  assumes "sort_targets g targets = Inr s"
  shows "set s = {u. \<exists>r \<in> set targets. (r, u) \<in> (depends g)\<^sup>*}"
proof -
  from assms obtain order where o: "collect (map (visit g []) targets) = Inr order"
    and s: "s = remdups (rev order)"
    by (auto simp: sort_targets_def split: sum.splits)
  have "set order = {u. \<exists>r \<in> set targets. (r, u) \<in> (depends g)\<^sup>*}"
  proof (intro set_eqI iffI)
    fix u assume "u \<in> set order"
    from collect_map_set [OF o this] obtain r m where "r \<in> set targets" "visit g [] r = Inr m"
      "u \<in> set m"
      by blast
    then show "u \<in> {u. \<exists>r \<in> set targets. (r, u) \<in> (depends g)\<^sup>*}"
      by (auto simp: visit_set)
  next
    fix u assume "u \<in> {u. \<exists>r \<in> set targets. (r, u) \<in> (depends g)\<^sup>*}"
    then obtain r where r: "r \<in> set targets" and ru: "(r, u) \<in> (depends g)\<^sup>*"
      by blast
    from collect_map_Inr [OF o r] obtain m where m: "visit g [] r = Inr m" "set m \<subseteq> set order"
      by blast
    with ru show "u \<in> set order"
      by (auto simp: visit_set)
  qed
  then show ?thesis by (simp add: s)
qed

lemma filter_split:
  "filter P s = a @ x # b \<Longrightarrow> \<exists>a' b'. s = a' @ x # b' \<and> filter P b' = b"
proof (induction s arbitrary: a)
  case Nil
  then show ?case by simp
next
  case (Cons y s)
  show ?case
  proof (cases "P y")
    case False
    with Cons.prems have "filter P s = a @ x # b" by simp
    from Cons.IH [OF this] obtain a' b' where "s = a' @ x # b'" "filter P b' = b"
      by blast
    then have "y # s = (y # a') @ x # b' \<and> filter P b' = b" by simp
    then show ?thesis by blast
  next
    case True
    with Cons.prems have eq: "y # filter P s = a @ x # b" by simp
    show ?thesis
    proof (cases a)
      case Nil
      with eq have "y # s = [] @ x # s \<and> filter P s = b" by simp
      then show ?thesis by blast
    next
      case (Cons z a2)
      with eq have "filter P s = a2 @ x # b" by simp
      from Cons.IH [OF this] obtain a' b' where "s = a' @ x # b'" "filter P b' = b"
        by blast
      then have "y # s = (y # a') @ x # b' \<and> filter P b' = b" by simp
      then show ?thesis by blast
    qed
  qed
qed

lemma filtered_dependents_first:
  assumes "dependents_first g s" and "filter P s = a @ x # b"
    and "(x, d) \<in> (depends g)\<^sup>+" and "P d"
  shows "d \<in> set b"
proof -
  from filter_split [OF assms(2)] obtain a' b' where s: "s = a' @ x # b'" and b: "filter P b' = b"
    by blast
  from assms(3) assms(1) have "d \<in> set b'"
    unfolding s by (rule dependents_first_trans)
  with assms(4) b show ?thesis by auto
qed

subsection \<open>The console task\<close>

text \<open>
  C7 (as amended). The claim puts every dependency of a target T before T in the output
  with \<open>reverse = True\<close>. The code reverses the sorter's dependents-first sequence when
  the option is off, so it is the output with \<open>reverse = False\<close> in which every
  (direct or transitive) dependency of T that is listed appears before T; with
  \<open>reverse = True\<close> every such dependency appears after T. Either output lists,
  once each, the requested roots that are reachable from the targets given.
\<close>

theorem console_output_dependency_order:
  "(console_output (sort_targets g) reference False target_roots targets = Inr out \<longrightarrow>
      (\<exists>ts. out = map reference ts \<and> distinct ts \<and> set ts = {t \<in> set target_roots. \<exists>r \<in> set targets. (r, t) \<in> (depends g)\<^sup>*} \<and>
         (\<forall>pre T post D. ts = pre @ T # post \<and> (T, D) \<in> (depends g)\<^sup>+ \<and> D \<in> set target_roots
            \<longrightarrow> D \<in> set pre)))
   \<and> (console_output (sort_targets g) reference True target_roots targets = Inr out \<longrightarrow>
      (\<exists>ts. out = map reference ts \<and> distinct ts \<and> set ts = {t \<in> set target_roots. \<exists>r \<in> set targets. (r, t) \<in> (depends g)\<^sup>*} \<and>
         (\<forall>pre T post D. ts = pre @ T # post \<and> (T, D) \<in> (depends g)\<^sup>+ \<and> D \<in> set target_roots
            \<longrightarrow> D \<in> set post)))"
proof (intro conjI impI)
  assume run: "console_output (sort_targets g) reference False target_roots targets = Inr out"
  then obtain s where s: "sort_targets g targets = Inr s"
    and out: "out = map reference (filter (\<lambda>t. t \<in> set target_roots) (rev s))"
    by (auto simp: console_output_def split: sum.splits)
  from sort_targets_dependents_first [OF s] have df: "dependents_first g s" and ds: "distinct s"
    by simp_all
  let ?ts = "filter (\<lambda>t. t \<in> set target_roots) (rev s)"
  have "\<forall>pre T post D. ?ts = pre @ T # post \<and> (T, D) \<in> (depends g)\<^sup>+ \<and> D \<in> set target_roots
            \<longrightarrow> D \<in> set pre"
  proof (intro allI impI, elim conjE)
    fix pre T post D
    assume split: "?ts = pre @ T # post" and dep: "(T, D) \<in> (depends g)\<^sup>+"
      and root: "D \<in> set target_roots"
    from split have "rev ?ts = rev post @ T # rev pre" by simp
    then have "filter (\<lambda>t. t \<in> set target_roots) s = rev post @ T # rev pre"
      by (simp add: rev_filter)
    from filtered_dependents_first [OF df this dep root] show "D \<in> set pre" by simp
  qed
  moreover have "distinct ?ts" using ds by simp
  moreover have "set ?ts = {t \<in> set target_roots. \<exists>r \<in> set targets. (r, t) \<in> (depends g)\<^sup>*}"
    using sort_targets_set [OF s] by auto
  ultimately show "\<exists>ts. out = map reference ts \<and> distinct ts \<and> set ts = {t \<in> set target_roots. \<exists>r \<in> set targets. (r, t) \<in> (depends g)\<^sup>*} \<and>
         (\<forall>pre T post D. ts = pre @ T # post \<and> (T, D) \<in> (depends g)\<^sup>+ \<and> D \<in> set target_roots
            \<longrightarrow> D \<in> set pre)"
    using out by blast
next
  assume run: "console_output (sort_targets g) reference True target_roots targets = Inr out"
  then obtain s where s: "sort_targets g targets = Inr s"
    and out: "out = map reference (filter (\<lambda>t. t \<in> set target_roots) s)"
    by (auto simp: console_output_def split: sum.splits)
  from sort_targets_dependents_first [OF s] have df: "dependents_first g s" and ds: "distinct s"
    by simp_all
  let ?ts = "filter (\<lambda>t. t \<in> set target_roots) s"
  have "\<forall>pre T post D. ?ts = pre @ T # post \<and> (T, D) \<in> (depends g)\<^sup>+ \<and> D \<in> set target_roots
            \<longrightarrow> D \<in> set post"
    using filtered_dependents_first [OF df] by blast
  moreover have "distinct ?ts" using ds by simp
  moreover have "set ?ts = {t \<in> set target_roots. \<exists>r \<in> set targets. (r, t) \<in> (depends g)\<^sup>*}"
    using sort_targets_set [OF s] by auto
  ultimately show "\<exists>ts. out = map reference ts \<and> distinct ts \<and> set ts = {t \<in> set target_roots. \<exists>r \<in> set targets. (r, t) \<in> (depends g)\<^sup>*} \<and>
         (\<forall>pre T post D. ts = pre @ T # post \<and> (T, D) \<in> (depends g)\<^sup>+ \<and> D \<in> set target_roots
            \<longrightarrow> D \<in> set post)"
    using out by blast
qed

text \<open>The amended C7 at a graph where c depends on a and b, and b on a, with roots a
  and c: the forward output is a, c.\<close>

theorem console_output_dependency_order_witness:
  "console_output (sort_targets [(''b'', [''a'']), (''c'', [''a'', ''b''])]) (\<lambda>t. t) False
        [''a'', ''c''] [''a'', ''c'', ''b''] = Inr [''a'', ''c'']
   \<and> (''c'', ''a'') \<in> (depends [(''b'', [''a'']), (''c'', [''a'', ''b''])])\<^sup>+
   \<and> (\<exists>ts. [''a'', ''c''] = map (\<lambda>t. t) ts \<and> distinct ts
       \<and> set ts = {t \<in> set [''a'', ''c'']. \<exists>r \<in> set [''a'', ''c'', ''b''].
                     (r, t) \<in> (depends [(''b'', [''a'']), (''c'', [''a'', ''b''])])\<^sup>*} \<and>
         (\<forall>pre T post D. ts = pre @ T # post
            \<and> (T, D) \<in> (depends [(''b'', [''a'']), (''c'', [''a'', ''b''])])\<^sup>+
            \<and> D \<in> set [''a'', ''c'']
            \<longrightarrow> D \<in> set pre))"
proof (intro conjI)
  show h: "console_output (sort_targets [(''b'', [''a'']), (''c'', [''a'', ''b''])]) (\<lambda>t. t) False
        [''a'', ''c''] [''a'', ''c'', ''b''] = Inr [''a'', ''c'']"
    by (simp add: console_output_def sort_targets_def dependencies_of_def visit.simps)
  show "(''c'', ''a'') \<in> (depends [(''b'', [''a'']), (''c'', [''a'', ''b''])])\<^sup>+"
    by (rule r_into_trancl) (simp add: depends_def dependencies_of_def)
  show "\<exists>ts. [''a'', ''c''] = map (\<lambda>t. t) ts \<and> distinct ts
       \<and> set ts = {t \<in> set [''a'', ''c'']. \<exists>r \<in> set [''a'', ''c'', ''b''].
                     (r, t) \<in> (depends [(''b'', [''a'']), (''c'', [''a'', ''b''])])\<^sup>*} \<and>
         (\<forall>pre T post D. ts = pre @ T # post
            \<and> (T, D) \<in> (depends [(''b'', [''a'']), (''c'', [''a'', ''b''])])\<^sup>+
            \<and> D \<in> set [''a'', ''c'']
            \<longrightarrow> D \<in> set pre)"
    by (rule mp [OF conjunct1 [OF console_output_dependency_order] h])
qed

text \<open>C7 as stated fails: b depends on a, and with \<open>reverse = True\<close> the output lists
  b first and its dependency a after it.\<close>

theorem reverse_true_dependency_after_counterexample:
  "console_output (sort_targets [(''b'', [''a''])]) (\<lambda>t. t) True [''a'', ''b''] [''a'', ''b'']
     = Inr [''b'', ''a'']
   \<and> ''a'' \<in> set (dependencies_of [(''b'', [''a''])] ''b'')"
  by (simp add: console_output_def sort_targets_def dependencies_of_def visit.simps)

text \<open>
  C8. Whenever the sorter returns a sequence (the graph is acyclic), the output with
  \<open>reverse = False\<close> is exactly the reversal of the output with \<open>reverse = True\<close>
  for the same roots, hence a permutation of it. This holds for any sorter: it is the
  \<^verbatim>\<open>reversed\<close> call of \<^verbatim>\<open>console_output\<close>, and filtering by the roots and taking
  references both commute with reversal.
\<close>

theorem console_output_forward_is_reversed:
  assumes "sorter targets = Inr sorted_targets"
  shows "\<exists>out. console_output sorter reference True target_roots targets = Inr out
           \<and> console_output sorter reference False target_roots targets = Inr (rev out)
           \<and> mset (rev out) = mset out"
proof -
  let ?P = "\<lambda>t. t \<in> set target_roots"
  have t: "console_output sorter reference True target_roots targets
             = Inr (map reference (filter ?P sorted_targets))"
    using assms by (simp add: console_output_def)
  have f: "console_output sorter reference False target_roots targets
             = Inr (map reference (filter ?P (rev sorted_targets)))"
    using assms by (simp add: console_output_def)
  have "map reference (filter ?P (rev sorted_targets))
          = rev (map reference (filter ?P sorted_targets))"
    by (simp only: rev_map rev_filter)
  with t f show ?thesis
    by simp
qed

text \<open>C8 at the acyclic graph above.\<close>

theorem console_output_forward_is_reversed_witness:
  "sort_targets [(''b'', [''a'']), (''c'', [''a'', ''b''])] [''a'', ''c'', ''b'']
     = Inr [''c'', ''b'', ''a'']
   \<and> console_output (sort_targets [(''b'', [''a'']), (''c'', [''a'', ''b''])]) (\<lambda>t. t) True
        [''a'', ''c''] [''a'', ''c'', ''b''] = Inr [''c'', ''a'']
   \<and> console_output (sort_targets [(''b'', [''a'']), (''c'', [''a'', ''b''])]) (\<lambda>t. t) False
        [''a'', ''c''] [''a'', ''c'', ''b''] = Inr [''a'', ''c'']"
proof -
  have h: "sort_targets [(''b'', [''a'']), (''c'', [''a'', ''b''])] [''a'', ''c'', ''b'']
     = Inr [''c'', ''b'', ''a'']"
    by (simp add: sort_targets_def dependencies_of_def visit.simps)
  from console_output_forward_is_reversed
         [where sorter = "sort_targets [(''b'', [''a'']), (''c'', [''a'', ''b''])]"
            and targets = "[''a'', ''c'', ''b'']" and reference = "\<lambda>t. t"
            and target_roots = "[''a'', ''c'']", OF h]
  obtain out where
    t: "console_output (sort_targets [(''b'', [''a'']), (''c'', [''a'', ''b''])]) (\<lambda>t. t) True
        [''a'', ''c''] [''a'', ''c'', ''b''] = Inr out"
    and f: "console_output (sort_targets [(''b'', [''a'']), (''c'', [''a'', ''b''])]) (\<lambda>t. t) False
        [''a'', ''c''] [''a'', ''c'', ''b''] = Inr (rev out)"
    by blast
  have "out = [''c'', ''a'']"
    using t h by (simp add: console_output_def)
  with t f h show ?thesis by simp
qed

text \<open>
  C9. If a cycle of the dependency relation is reachable from the targets given to the
  sorter, the sort fails with \<open>CycleError\<close>, and so does the console task, whatever
  the option and the roots: the result is the error, with no sequence.
\<close>

theorem sort_cycle_fails:
  assumes "reachable_cycle g targets"
  shows "sort_targets g targets = Inl CycleError
     \<and> console_output (sort_targets g) reference reverse target_roots targets = Inl CycleError"
  using assms by (simp add: sort_targets_cycle_iff [symmetric] console_output_def)

text \<open>C9 at the graph where a and b depend on each other.\<close>

theorem sort_cycle_fails_witness:
  "reachable_cycle [(''a'', [''b'']), (''b'', [''a''])] [''a'']
   \<and> sort_targets [(''a'', [''b'']), (''b'', [''a''])] [''a''] = Inl CycleError
   \<and> console_output (sort_targets [(''a'', [''b'']), (''b'', [''a''])]) (\<lambda>t. t) True [''a''] [''a'']
       = Inl CycleError"
proof -
  let ?g = "[(''a'', [''b'']), (''b'', [''a''])]"
  have ab: "(''a'', ''b'') \<in> depends ?g" and ba: "(''b'', ''a'') \<in> depends ?g"
    by (simp_all add: depends_def dependencies_of_def)
  then have "(''a'', ''a'') \<in> (depends ?g)\<^sup>+"
    by (meson trancl.intros)
  then have h: "reachable_cycle ?g [''a'']"
    unfolding reachable_cycle_def by (intro exI [of _ "''a''"]) simp
  from sort_cycle_fails [OF h, of "\<lambda>t. t" True "[''a'']"] h show ?thesis
    by simp
qed

end
